theory Spec2Isabelle
  imports Main "HOL-Library.Word" "HOL-Library.Multiset"
begin

unbundle bit_operations_syntax

section \<open>Packed octree nodes (nih/octree/octree_inline.h)\<close>

text \<open>
  \<open>Octree_node_base\<close> holds one \<open>uint32\<close>, \<open>m_packed_info\<close>: the low 8 bits are the mask of
  active children, the upper 24 bits the offset of the first child. Every C++ operator is
  taken on \<open>32 word\<close>: \<open>&\<close> is \<open>AND\<close>, \<open>|\<close> is \<open>OR\<close>, \<open><<\<close> is \<open>push_bit\<close>, \<open>>>\<close> is
  \<open>drop_bit\<close>. A setter mutates the node in place; the model returns the updated node.
\<close>

record Octree_node_base =
  m_packed_info :: "32 word"

text \<open>The leaf constructor: \<open>m_packed_info( leaf_index << 8u )\<close>.\<close>

definition Octree_node_base_leaf :: "32 word \<Rightarrow> Octree_node_base" where
  "Octree_node_base_leaf leaf_index = \<lparr>m_packed_info = push_bit 8 leaf_index\<rparr>"

text \<open>
  The full constructor: \<open>m_packed_info( (index << 8u) & mask )\<close>. The parameter \<open>mask\<close>
  is written \<open>child_mask\<close>, here and in \<open>set_child_mask\<close>.
\<close>

definition Octree_node_base_full :: "32 word \<Rightarrow> 32 word \<Rightarrow> Octree_node_base" where
  "Octree_node_base_full child_mask index =
     \<lparr>m_packed_info = push_bit 8 index AND child_mask\<rparr>"

definition get_child_mask :: "Octree_node_base \<Rightarrow> 32 word" where
  "get_child_mask node = m_packed_info node AND 0x000000FF"

definition is_leaf :: "Octree_node_base \<Rightarrow> bool" where
  "is_leaf node = (if get_child_mask node \<noteq> 0 then False else True)"

definition set_child_mask :: "32 word \<Rightarrow> Octree_node_base \<Rightarrow> Octree_node_base" where
  "set_child_mask child_mask node =
     node\<lparr>m_packed_info := (m_packed_info node AND 0xFFFFFF00) OR child_mask\<rparr>"

definition set_child_offset :: "32 word \<Rightarrow> Octree_node_base \<Rightarrow> Octree_node_base" where
  "set_child_offset child node =
     node\<lparr>m_packed_info := (m_packed_info node AND 0x000000FF) OR push_bit 8 child\<rparr>"

definition get_child_offset :: "Octree_node_base \<Rightarrow> 32 word" where
  "get_child_offset node = drop_bit 8 (m_packed_info node)"

definition is_active :: "Octree_node_base \<Rightarrow> 32 word \<Rightarrow> bool" where
  "is_active node i = (if m_packed_info node AND push_bit (unat i) 1 \<noteq> 0 then True else False)"

definition get_child :: "Octree_node_base \<Rightarrow> 32 word \<Rightarrow> 32 word" where
  "get_child node i = drop_bit 8 (m_packed_info node) + i"

text \<open>
  Modelled from the spec: \<open>popc\<close>, the population count, whose definition lies outside
  octree_inline.h. The spec calls it the number of set bits of its argument. It is
  taken at the width of its argument: 8 bits after the cast \<open>uint8(...)\<close> of the host
  variant, 32 bits for the intrinsic \<open>__popc\<close> of the device variant.
\<close>

definition popc :: "'a::len word \<Rightarrow> 32 word" where
  "popc x = of_nat (length (filter (bit x) [0..<LENGTH('a)]))"

text \<open>
  \<open>get_octant\<close>, host variant:
  \<open>mask & (1u << i) ? get_child_offset() + popc(uint8(mask << (8u - i))) : kInvalid\<close>.
  The sentinel \<open>kInvalid\<close> is declared outside octree_inline.h; it is a parameter here.
\<close>

definition get_octant_host :: "32 word \<Rightarrow> Octree_node_base \<Rightarrow> 32 word \<Rightarrow> 32 word" where
  "get_octant_host kInvalid node i =
     (let mask = get_child_mask node
      in if mask AND push_bit (unat i) 1 \<noteq> 0
         then get_child_offset node + popc (ucast (push_bit (unat (8 - i)) mask) :: 8 word)
         else kInvalid)"

text \<open>
  \<open>get_octant\<close>, device variant (the body under \<open>__CUDACC__\<close>):
  \<open>mask & (1u << i) ? get_child_offset() + __popc(mask << (8u - i)) : kInvalid\<close>.
  The shifted mask goes to the 32-bit population count as it is.
\<close>

definition get_octant_device :: "32 word \<Rightarrow> Octree_node_base \<Rightarrow> 32 word \<Rightarrow> 32 word" where
  "get_octant_device kInvalid node i =
     (let mask = get_child_mask node
      in if mask AND push_bit (unat i) 1 \<noteq> 0
         then get_child_offset node + popc (push_bit (unat (8 - i)) mask)
         else kInvalid)"

section \<open>Binary tree generation (nih/bintree/cuda/bintree_gen_inline.h)\<close>

subsection \<open>The leading bit difference\<close>

text \<open>
  \<open>find_leading_bit_difference\<close> takes \<open>start_level\<close> as an \<open>int32\<close> and returns the
  final \<open>level\<close> converted to \<open>uint32\<close>. The level is kept as a \<open>32 word\<close>: the loop test
  \<open>level >= 0\<close> reads it as two's complement (\<open>sint\<close>), and the conversion of the result
  to \<open>uint32\<close> keeps the bits. \<open>1u << level\<close> is \<open>push_bit\<close>; for a level above 31 the
  C++ shift is undefined and \<open>push_bit\<close> gives 0, as the shift instruction of the device
  does. The loop is the recursion; it ends because \<open>level\<close> decreases towards \<open>-1\<close>.
\<close>

function find_leading_bit_difference :: "32 word \<Rightarrow> 32 word \<Rightarrow> 32 word \<Rightarrow> 32 word" where
  "find_leading_bit_difference level code0 code1 =
     (if 0 \<le> sint level
      then (let mask = push_bit (unat level) (1 :: 32 word)
            in if code0 AND mask \<noteq> code1 AND mask
               then level
               else find_leading_bit_difference (level - 1) code0 code1)
      else level)"
  by pat_completeness auto

termination
proof (relation "measure (\<lambda>(level, code0, code1). nat (sint level + 1))")
  show "wf (measure (\<lambda>(level, code0, code1). nat (sint level + 1)))"
    by simp
next
  fix level code0 code1 :: "32 word" and mask :: "32 word"
  assume nonneg: "0 \<le> sint level"
  have "sint level < 2 ^ 31"
    using sint_lt [of level] by simp
  with nonneg have "signed_take_bit 31 (sint level - 1) = sint level - 1"
    by (intro signed_take_bit_int_eq_self) simp_all
  then have "sint (level - 1) = sint level - 1"
    by (simp add: sint_word_diff)
  with nonneg
  show "((level - 1, code0, code1), (level, code0, code1))
          \<in> measure (\<lambda>(level, code0, code1). nat (sint level + 1))"
    by simp
qed

declare find_leading_bit_difference.simps [simp del]


subsection \<open>Tasks, the tree writer, and the collaborators\<close>

text \<open>
  A \<open>Split_task\<close> is built by \<open>Split_task( node, begin, end, input )\<close> and read through
  \<open>m_node\<close>, \<open>m_begin\<close>, \<open>m_end\<close>, \<open>m_input\<close>, all \<open>uint32\<close>; \<open>m_input\<close> is the bit
  level of the task.
\<close>

record Split_task =
  m_node :: "32 word"
  m_begin :: "32 word"
  m_end :: "32 word"
  m_input :: "32 word"

text \<open>
  The tree is a capability: the generator only calls \<open>reserve_nodes\<close>,
  \<open>reserve_leaves\<close>, \<open>write_node\<close> and \<open>write_leaf\<close> on it. Its state is the list of the
  calls made so far, oldest first.
\<close>

datatype tree_call =
  reserve_nodes "32 word"
| reserve_leaves "32 word"
| write_node "32 word" bool bool "32 word"
| write_leaf "32 word" "32 word" "32 word"

text \<open>
  Modelled from the spec: \<open>mask_and\<close> (declared in nih/basic/functors.h), the
  mask-and-compare predicate of the binary search: a key satisfies it when the key has a
  bit of the mask set.
\<close>

definition mask_and :: "32 word \<Rightarrow> 32 word \<Rightarrow> bool" where
  "mask_and m x = (x AND m \<noteq> 0)"

text \<open>
  Modelled from the spec: \<open>find_pivot\<close> (declared in nih/basic/algorithms.h),
  the binary search for the boundary at which a monotonic predicate flips from false to
  true. An iterator is the array with an index: \<open>find_pivot xs begin n predicate\<close> searches
  the \<open>n\<close> elements from index \<open>begin\<close> on and returns the index of the first element
  that satisfies the predicate, or \<open>begin + n\<close> when none does.
\<close>

function find_pivot_loop :: "'a list \<Rightarrow> ('a \<Rightarrow> bool) \<Rightarrow> nat \<Rightarrow> nat \<Rightarrow> nat" where
  "find_pivot_loop xs predicate lo len =
     (if len = 0 then lo
      else (let half = len div 2; middle = lo + half
            in if predicate (xs ! middle)
               then find_pivot_loop xs predicate lo half
               else find_pivot_loop xs predicate (middle + 1) (len - (half + 1))))"
  by pat_completeness auto
termination
  by (relation "measure (\<lambda>(xs, predicate, lo, len). len)") auto

declare find_pivot_loop.simps [simp del]

definition find_pivot :: "'a list \<Rightarrow> nat \<Rightarrow> nat \<Rightarrow> ('a \<Rightarrow> bool) \<Rightarrow> nat" where
  "find_pivot xs begin n predicate = find_pivot_loop xs predicate begin n"

text \<open>
  Modelled from the spec: \<open>cuda::alloc\<close> (declared in nih/basic/cuda/scan.h),
  the warp-cooperative slot allocator. A worker that asks for \<open>n\<close> slots gets a base
  offset of its own and the shared counter grows by \<open>n\<close>. The threads of a kernel are run
  one after the other, in the order of their task ids, so the base is the value the
  counter has when the thread asks. The result is the base and the new counter.
  \<open>alloc1\<close> is the overload \<open>alloc<1>\<close>, which takes a flag and asks for one slot or none.
\<close>

definition alloc :: "32 word \<Rightarrow> 32 word \<Rightarrow> 32 word \<times> 32 word" where
  "alloc n counter = (counter, counter + n)"

definition alloc1 :: "bool \<Rightarrow> 32 word \<Rightarrow> 32 word \<times> 32 word" where
  "alloc1 p counter = alloc (if p then 1 else 0) counter"

subsection \<open>The split kernel\<close>

text \<open>
  What \<open>split_kernel\<close> changes: the output task counter, the output queue, the leaf
  counter and the tree.
\<close>

record split_state =
  out_tasks_count :: "32 word"
  out_tasks :: "Split_task list"
  out_leaf_count :: "32 word"
  tree :: "tree_call list"

text \<open>
  Lines 109 to 117: the bit level a thread works with. It is the task's \<open>m_input\<close>, or,
  when \<open>keep_singletons\<close> is off, the leading bit difference of \<open>codes[begin]\<close> and
  \<open>codes[end-1]\<close> from that level down.
\<close>

definition split_level :: "bool \<Rightarrow> 32 word list \<Rightarrow> Split_task \<Rightarrow> 32 word" where
  "split_level keep_singletons codes in_task =
     (let begin = m_begin in_task; end = m_end in_task; level = m_input in_task
      in if \<not> keep_singletons
         then find_leading_bit_difference level (codes ! unat begin) (codes ! unat (end - 1))
         else level)"

text \<open>
  Lines 123 to 126: the partitioning pivot,
  \<open>find_pivot( codes + begin, end - begin, mask_and<uint32>( 1u << level ) ) - codes\<close>,
  stored in the \<open>uint32\<close> \<open>split_index\<close>.
\<close>

definition split_pivot :: "32 word list \<Rightarrow> 32 word \<Rightarrow> 32 word \<Rightarrow> 32 word \<Rightarrow> 32 word" where
  "split_pivot codes begin end level =
     of_nat (find_pivot codes (unat begin) (unat (end - begin))
               (mask_and (push_bit (unat level) 1)))"

text \<open>
  Lines 91 to 129: \<open>output_count\<close> and \<open>split_index\<close>. \<open>split_index\<close> is not initialised
  when the task is not split, and not read then; the model puts 0 there.
\<close>

definition split_plan :: "32 word \<Rightarrow> 32 word list \<Rightarrow> Split_task \<Rightarrow> 32 word \<Rightarrow> 32 word \<times> 32 word" where
  "split_plan max_leaf_size codes in_task level =
     (let begin = m_begin in_task; end = m_end in_task
      in if end - begin > max_leaf_size
         then (let split_index = split_pivot codes begin end level
               in (if split_index = begin \<or> split_index = end then 1 else 2, split_index))
         else (0, 0))"

text \<open>
  One thread of \<open>split_kernel\<close> whose \<open>task_id\<close> is within \<open>in_tasks_count\<close>, lines 91 to
  155. A thread beyond the count asks both allocators for nothing and writes nothing.
\<close>

definition split_kernel_thread ::
  "32 word \<Rightarrow> bool \<Rightarrow> 32 word list \<Rightarrow> Split_task list \<Rightarrow> 32 word \<Rightarrow> nat
     \<Rightarrow> split_state \<Rightarrow> split_state" where
  "split_kernel_thread max_leaf_size keep_singletons codes in_tasks out_nodes_count task_id s =
     (let in_task = in_tasks ! task_id;
          node = m_node in_task;
          begin = m_begin in_task;
          end = m_end in_task;
          level = split_level keep_singletons codes in_task;
          (output_count, split_index) = split_plan max_leaf_size codes in_task level;
          (offset, tasks_count) = alloc output_count (out_tasks_count s);
          tasks0 = (if output_count \<ge> 1
                    then (out_tasks s)[unat (offset + 0) :=
                           \<lparr>m_node = out_nodes_count + offset + 0, m_begin = begin,
                            m_end = (if output_count = 1 then end else split_index),
                            m_input = level - 1\<rparr>]
                    else out_tasks s);
          tasks1 = (if output_count = 2
                    then tasks0[unat (offset + 1) :=
                           \<lparr>m_node = out_nodes_count + offset + 1, m_begin = split_index,
                            m_end = end, m_input = level - 1\<rparr>]
                    else tasks0);
          generate_leaf = (output_count = 0);
          (leaf_index, leaf_count) = alloc1 generate_leaf (out_leaf_count s);
          tree0 = tree s @
                    [write_node node
                       (if output_count \<noteq> 0 then split_index \<noteq> begin else False)
                       (if output_count \<noteq> 0 then split_index \<noteq> end else False)
                       (if output_count \<noteq> 0 then out_nodes_count + offset else leaf_index)];
          tree1 = (if output_count = 0 then tree0 @ [write_leaf leaf_index begin end] else tree0)
      in \<lparr>out_tasks_count = tasks_count, out_tasks = tasks1,
          out_leaf_count = leaf_count, tree = tree1\<rparr>)"

text \<open>
  The kernel, and its launch by \<open>split\<close>: one thread for each task id below
  \<open>in_tasks_count\<close>.
\<close>

definition split_kernel ::
  "32 word \<Rightarrow> bool \<Rightarrow> 32 word list \<Rightarrow> 32 word \<Rightarrow> Split_task list \<Rightarrow> 32 word
     \<Rightarrow> split_state \<Rightarrow> split_state" where
  "split_kernel max_leaf_size keep_singletons codes in_tasks_count in_tasks out_nodes_count s =
     fold (split_kernel_thread max_leaf_size keep_singletons codes in_tasks out_nodes_count)
       [0..<unat in_tasks_count] s"

definition split ::
  "32 word \<Rightarrow> bool \<Rightarrow> 32 word list \<Rightarrow> 32 word \<Rightarrow> Split_task list \<Rightarrow> 32 word
     \<Rightarrow> split_state \<Rightarrow> split_state" where
  "split max_leaf_size keep_singletons codes in_tasks_count in_tasks out_nodes_count s =
     split_kernel max_leaf_size keep_singletons codes in_tasks_count in_tasks out_nodes_count s"

subsection \<open>The leaf kernel\<close>

text \<open>
  \<open>gen_leaves_kernel\<close> changes the leaf counter and the tree; its state is that pair.
  One thread, lines 180 to 204.
\<close>

definition gen_leaves_kernel_thread ::
  "Split_task list \<Rightarrow> nat \<Rightarrow> 32 word \<times> tree_call list \<Rightarrow> 32 word \<times> tree_call list" where
  "gen_leaves_kernel_thread in_tasks task_id s =
     (let in_task = in_tasks ! task_id;
          node = m_node in_task;
          begin = m_begin in_task;
          end = m_end in_task;
          (leaf_index, leaf_count) = alloc1 True (fst s)
      in (leaf_count,
          snd s @ [write_node node False False leaf_index, write_leaf leaf_index begin end]))"

definition gen_leaves_kernel ::
  "32 word \<Rightarrow> Split_task list \<Rightarrow> 32 word \<times> tree_call list \<Rightarrow> 32 word \<times> tree_call list" where
  "gen_leaves_kernel in_tasks_count in_tasks s =
     fold (gen_leaves_kernel_thread in_tasks) [0..<unat in_tasks_count] s"

definition gen_leaves ::
  "32 word \<Rightarrow> Split_task list \<Rightarrow> 32 word \<times> tree_call list \<Rightarrow> 32 word \<times> tree_call list" where
  "gen_leaves in_tasks_count in_tasks s = gen_leaves_kernel in_tasks_count in_tasks s"

subsection \<open>The generator\<close>

text \<open>
  \<open>Bintree_gen_context\<close>: the two task queues \<open>m_task_queues[2]\<close>, addressed by the queue
  index, the vector \<open>m_counters\<close>, and the two results \<open>m_nodes\<close> and \<open>m_leaves\<close>.
\<close>

record Bintree_gen_context =
  m_task_queues :: "nat \<Rightarrow> Split_task list"
  m_counters :: "32 word list"
  m_nodes :: "32 word"
  m_leaves :: "32 word"

text \<open>
  \<open>resize_if_needed\<close> grows a queue to \<open>size\<close> elements (written \<open>new_size\<close>) and never
  shrinks it. What a fresh \<open>Split_task\<close> holds is not said in the files; the model fills
  the new slots with zero tasks. \<open>resize_counters\<close> is \<open>m_counters.resize( 4 )\<close>.
\<close>

definition resize_if_needed :: "Split_task list \<Rightarrow> 32 word \<Rightarrow> Split_task list" where
  "resize_if_needed vec new_size =
     (if length vec < unat new_size
      then vec @ replicate (unat new_size - length vec)
                   \<lparr>m_node = 0, m_begin = 0, m_end = 0, m_input = 0\<rparr>
      else vec)"

definition resize_counters :: "32 word list \<Rightarrow> 32 word list" where
  "resize_counters counters = take 4 counters @ replicate (4 - length counters) 0"

text \<open>
  The integer division \<open>n_codes / max_leaf_size\<close> of line 286 runs on the host, where a
  zero divisor stops the program: \<open>generate\<close> returns \<open>Division_by_zero\<close> then.
\<close>

datatype gen_error = Division_by_zero

text \<open>
  The local variables of \<open>generate\<close> that the loop changes, with the context and the
  tree. \<open>level\<close> is an \<open>int32\<close>, kept as a word and read by \<open>sint\<close>.
\<close>

record gen_state =
  gen_context :: Bintree_gen_context
  in_queue :: nat
  out_queue :: nat
  n_nodes :: "32 word"
  gen_level :: "32 word"
  gen_tree :: "tree_call list"

text \<open>Lines 286 to 311: the reservations, the queues, the counters and the first task.\<close>

definition generate_init ::
  "Bintree_gen_context \<Rightarrow> 32 word \<Rightarrow> 32 word \<Rightarrow> 32 word \<Rightarrow> tree_call list \<Rightarrow> gen_state" where
  "generate_init context n_codes bits max_leaf_size tree0 =
     (let tree1 = tree0 @ [reserve_nodes ((n_codes div max_leaf_size) * 2),
                           reserve_leaves n_codes];
          queues0 = m_task_queues context;
          queues1 = queues0(0 := resize_if_needed (queues0 0) n_codes);
          queues2 = queues1(1 := resize_if_needed (queues1 1) n_codes);
          iq = 0;
          oq = 1;
          counters0 = resize_counters (m_counters context);
          counters1 = counters0[iq := 1];
          counters2 = counters1[oq := 0];
          counters3 = counters2[2 := 0];
          queues3 = queues2(iq := (queues2 iq)[0 :=
                      \<lparr>m_node = 0, m_begin = 0, m_end = n_codes, m_input = bits - 1\<rparr>])
      in \<lparr>gen_context = context\<lparr>m_task_queues := queues3, m_counters := counters3\<rparr>,
          in_queue = iq, out_queue = oq, n_nodes = 1, gen_level = bits - 1,
          gen_tree = tree1\<rparr>)"

text \<open>Line 314: the test of the loop.\<close>

definition generate_loop_cond :: "gen_state \<Rightarrow> bool" where
  "generate_loop_cond st =
     (m_counters (gen_context st) ! in_queue st \<noteq> 0 \<and> 0 \<le> sint (gen_level st))"

text \<open>Lines 316 to 342: one pass of the loop.\<close>

definition generate_loop_body :: "32 word \<Rightarrow> bool \<Rightarrow> 32 word list \<Rightarrow> gen_state \<Rightarrow> gen_state" where
  "generate_loop_body max_leaf_size keep_singletons codes st =
     (let context = gen_context st;
          iq = in_queue st;
          oq = out_queue st;
          counters0 = m_counters context;
          tree1 = gen_tree st @ [reserve_nodes (n_nodes st + (counters0 ! iq) * 2)];
          counters1 = counters0[oq := 0];
          s = split max_leaf_size keep_singletons codes
                (counters1 ! iq) (m_task_queues context iq) (n_nodes st)
                \<lparr>out_tasks_count = counters1 ! oq, out_tasks = m_task_queues context oq,
                 out_leaf_count = counters1 ! 2, tree = tree1\<rparr>;
          counters2 = counters1[oq := out_tasks_count s, 2 := out_leaf_count s];
          queues = (m_task_queues context)(oq := out_tasks s)
      in \<lparr>gen_context = context\<lparr>m_task_queues := queues, m_counters := counters2\<rparr>,
          in_queue = oq, out_queue = iq, n_nodes = n_nodes st + counters2 ! oq,
          gen_level = gen_level st - 1, gen_tree = tree s\<rparr>)"

function generate_loop :: "32 word \<Rightarrow> bool \<Rightarrow> 32 word list \<Rightarrow> gen_state \<Rightarrow> gen_state" where
  "generate_loop max_leaf_size keep_singletons codes st =
     (if generate_loop_cond st
      then generate_loop max_leaf_size keep_singletons codes
             (generate_loop_body max_leaf_size keep_singletons codes st)
      else st)"
  by pat_completeness auto

termination
proof (relation "measure (\<lambda>(max_leaf_size, keep_singletons, codes, st).
                            nat (sint (gen_level st) + 1))")
  show "wf (measure (\<lambda>(max_leaf_size, keep_singletons, codes, st).
                       nat (sint (gen_level st) + 1)))"
    by simp
next
  fix max_leaf_size :: "32 word" and keep_singletons :: bool
    and codes :: "32 word list" and st :: gen_state
  assume "generate_loop_cond st"
  then have nonneg: "0 \<le> sint (gen_level st)"
    by (simp add: generate_loop_cond_def)
  have "sint (gen_level st) < 2 ^ 31"
    using sint_lt [of "gen_level st"] by simp
  with nonneg have "signed_take_bit 31 (sint (gen_level st) - 1) = sint (gen_level st) - 1"
    by (intro signed_take_bit_int_eq_self) simp_all
  then have "sint (gen_level st - 1) = sint (gen_level st) - 1"
    by (simp add: sint_word_diff)
  moreover have "gen_level (generate_loop_body max_leaf_size keep_singletons codes st)
                   = gen_level st - 1"
    by (simp add: generate_loop_body_def Let_def)
  ultimately
  show "((max_leaf_size, keep_singletons, codes,
          generate_loop_body max_leaf_size keep_singletons codes st),
         (max_leaf_size, keep_singletons, codes, st))
          \<in> measure (\<lambda>(max_leaf_size, keep_singletons, codes, st).
                        nat (sint (gen_level st) + 1))"
    using nonneg by simp
qed

declare generate_loop.simps [simp del]

text \<open>
  \<open>generate\<close>: the initialisation, the loop, the leaves of the tasks that are left
  (lines 347 to 354), and the two results (lines 355 and 356). It returns the context and
  the tree.
\<close>

definition generate ::
  "Bintree_gen_context \<Rightarrow> 32 word \<Rightarrow> 32 word list \<Rightarrow> 32 word \<Rightarrow> 32 word \<Rightarrow> bool
     \<Rightarrow> tree_call list \<Rightarrow> gen_error + Bintree_gen_context \<times> tree_call list" where
  "generate context n_codes codes bits max_leaf_size keep_singletons tree0 =
     (if max_leaf_size = 0 then Inl Division_by_zero
      else (let st = generate_loop max_leaf_size keep_singletons codes
                       (generate_init context n_codes bits max_leaf_size tree0);
                context1 = gen_context st;
                counters = m_counters context1;
                (leaf_count, tree1) =
                  (if counters ! in_queue st \<noteq> 0
                   then gen_leaves (counters ! in_queue st)
                          (m_task_queues context1 (in_queue st)) (counters ! 2, gen_tree st)
                   else (counters ! 2, gen_tree st));
                counters1 = counters[2 := leaf_count]
            in Inr (context1\<lparr>m_counters := counters1, m_nodes := n_nodes st,
                             m_leaves := counters1 ! 2\<rparr>,
                    tree1)))"

section \<open>Vocabulary of the properties\<close>

text \<open>
  A range is a pair \<open>(begin, end)\<close> and stands for the key indices from \<open>begin\<close> up to,
  not including, \<open>end\<close>. \<open>indices\<close> lists the key indices of a list of ranges, one entry
  for each range an index lies in.
\<close>

definition range_indices :: "32 word \<times> 32 word \<Rightarrow> nat list" where
  "range_indices r = [unat (fst r)..<unat (snd r)]"

definition indices :: "(32 word \<times> 32 word) list \<Rightarrow> nat list" where
  "indices rs = concat (map range_indices rs)"

definition task_range :: "Split_task \<Rightarrow> 32 word \<times> 32 word" where
  "task_range t = (m_begin t, m_end t)"

text \<open>The ranges that the calls of \<open>write_leaf\<close> in a list of tree calls carry, in order.\<close>

fun leaf_ranges :: "tree_call list \<Rightarrow> (32 word \<times> 32 word) list" where
  "leaf_ranges [] = []"
| "leaf_ranges (write_leaf leaf_index begin end # calls) = (begin, end) # leaf_ranges calls"
| "leaf_ranges (reserve_nodes n # calls) = leaf_ranges calls"
| "leaf_ranges (reserve_leaves n # calls) = leaf_ranges calls"
| "leaf_ranges (write_node node left right index # calls) = leaf_ranges calls"

text \<open>
  The leaf slots that the calls of \<open>write_leaf\<close> in a list of tree calls write, in order.
  The calls fill the slots from \<open>c\<close> on when their slots are \<open>c\<close>, \<open>c + 1\<close> and so on.
\<close>

fun leaf_slots :: "tree_call list \<Rightarrow> 32 word list" where
  "leaf_slots [] = []"
| "leaf_slots (write_leaf leaf_index begin end # calls) = leaf_index # leaf_slots calls"
| "leaf_slots (reserve_nodes n # calls) = leaf_slots calls"
| "leaf_slots (reserve_leaves n # calls) = leaf_slots calls"
| "leaf_slots (write_node node left right index # calls) = leaf_slots calls"

definition slots_from :: "32 word \<Rightarrow> tree_call list \<Rightarrow> bool" where
  "slots_from c calls =
     (leaf_slots calls = map (\<lambda>k. c + of_nat k) [0..<length (leaf_slots calls)])"

text \<open>
  The tasks of the input queue: the first \<open>m_counters[in_queue]\<close> entries of
  \<open>m_task_queues[in_queue]\<close>.
\<close>

definition pending :: "gen_state \<Rightarrow> Split_task list" where
  "pending st =
     take (unat (m_counters (gen_context st) ! in_queue st))
       (m_task_queues (gen_context st) (in_queue st))"

text \<open>
  The states of \<open>generate\<close> at the head of its loop: the state after the initialisation,
  and the state after each pass that the loop test lets through.
\<close>

inductive generate_reaches ::
  "32 word \<Rightarrow> bool \<Rightarrow> 32 word list \<Rightarrow> gen_state \<Rightarrow> gen_state \<Rightarrow> bool"
  for max_leaf_size keep_singletons codes st0 where
  start: "generate_reaches max_leaf_size keep_singletons codes st0 st0"
| pass: "generate_reaches max_leaf_size keep_singletons codes st0 st
           \<Longrightarrow> generate_loop_cond st
           \<Longrightarrow> generate_reaches max_leaf_size keep_singletons codes st0
                 (generate_loop_body max_leaf_size keep_singletons codes st)"

text \<open>A task is live below \<open>n\<close> when its range is not empty and ends at \<open>n\<close> or before.\<close>

definition live_task :: "nat \<Rightarrow> Split_task \<Rightarrow> bool" where
  "live_task n t = (unat (m_begin t) < unat (m_end t) \<and> unat (m_end t) \<le> n)"

text \<open>
  The invariant of the loop of \<open>generate\<close> over \<open>n\<close> keys, on a tree that held the calls
  \<open>tree0\<close> before: the queue indices are 0 and 1, there are four counters, both queues
  have room for \<open>n\<close> tasks, the tasks of the input queue are live, and the ranges of these
  tasks together with the ranges of the leaves written so far hold every key index below
  \<open>n\<close> once.
\<close>

definition gen_inv :: "nat \<Rightarrow> tree_call list \<Rightarrow> gen_state \<Rightarrow> bool" where
  "gen_inv n tree0 st =
     (in_queue st < 2 \<and> out_queue st = 1 - in_queue st \<and>
      length (m_counters (gen_context st)) = 4 \<and>
      n \<le> length (m_task_queues (gen_context st) 0) \<and>
      n \<le> length (m_task_queues (gen_context st) 1) \<and>
      unat (m_counters (gen_context st) ! in_queue st)
        \<le> length (m_task_queues (gen_context st) (in_queue st)) \<and>
      (\<forall>t\<in>set (pending st). live_task n t) \<and>
      (\<exists>calls. gen_tree st = tree0 @ calls \<and>
         mset (indices (map task_range (pending st))) + mset (indices (leaf_ranges calls))
           = mset [0..<n] \<and>
         (\<forall>r\<in>set (leaf_ranges calls). unat (fst r) < unat (snd r) \<and> unat (snd r) \<le> n)))"

text \<open>
  The levels in the loop, for keys of at most 32 bits: the level of \<open>generate\<close> is
  between \<open>-1\<close> and 31, and the level of a task of the input queue is at most that level
  and at most 32 below it.
\<close>

definition levels_inv :: "gen_state \<Rightarrow> bool" where
  "levels_inv st =
     (- 1 \<le> sint (gen_level st) \<and> sint (gen_level st) \<le> 31 \<and>
      (\<forall>t\<in>set (pending st).
         sint (gen_level st) - 32 \<le> sint (m_input t) \<and>
         sint (m_input t) \<le> sint (gen_level st)))"

text \<open>
  The leaf counter in the loop: the calls made on the tree since \<open>tree0\<close> fill the leaf
  slots from 0 on, and the leaf counter \<open>m_counters[2]\<close> is the number of these slots.
\<close>

definition slots_inv :: "tree_call list \<Rightarrow> gen_state \<Rightarrow> bool" where
  "slots_inv tree0 st =
     (\<exists>calls. gen_tree st = tree0 @ calls \<and>
        m_counters (gen_context st) ! 2 = of_nat (length (leaf_slots calls)) \<and>
        slots_from 0 calls)"

section \<open>Properties of the packed nodes\<close>

subsection \<open>Bits of small words\<close>

lemma low_bits: "(m :: 32 word) < 2 ^ k \<Longrightarrow> bit m n \<Longrightarrow> n < k"
proof -
  assume small: "m < 2 ^ k" and set: "bit m n"
  from small have "m AND mask k = m"
    by (rule less_mask_eq)
  with set have "bit (m AND mask k) n"
    by simp
  then show "n < k"
    by (simp add: bit_and_iff bit_mask_iff)
qed

lemma mask8: "(0x000000FF :: 32 word) = mask 8"
  by (simp add: mask_eq_exp_minus_1)

lemma notmask8: "(0xFFFFFF00 :: 32 word) = NOT (mask 8)"
  by (simp add: mask_eq_exp_minus_1)

lemma and_exp_test: "((x :: 32 word) AND 2 ^ n \<noteq> 0) = bit x n"
  by (simp add: and_exp_eq_0_iff_not_bit)

subsection \<open>The setters\<close>

lemma get_child_mask_set_child_mask:
  assumes "m < 256"
  shows "get_child_mask (set_child_mask m node) = m"
proof -
  from assms have m: "m < 2 ^ 8"
    by simp
  show ?thesis
    unfolding get_child_mask_def set_child_mask_def
    apply (simp add: mask8 notmask8)
    apply (rule bit_word_eqI)
    using low_bits [OF m]
    apply (auto simp add: bit_simps)
    done
qed

lemma get_child_offset_set_child_mask:
  assumes "m < 256"
  shows "get_child_offset (set_child_mask m node) = get_child_offset node"
proof -
  from assms have m: "m < 2 ^ 8"
    by simp
  show ?thesis
    unfolding get_child_offset_def set_child_mask_def
    apply (simp add: mask8 notmask8)
    apply (rule bit_word_eqI)
    using low_bits [OF m]
    apply (auto simp add: bit_simps dest: bit_imp_le_length)
    done
qed

lemma get_child_offset_set_child_offset:
  assumes "c < 2 ^ 24"
  shows "get_child_offset (set_child_offset c node) = c"
  unfolding get_child_offset_def set_child_offset_def
  apply (simp add: mask8 notmask8)
  apply (rule bit_word_eqI)
  using low_bits [OF assms]
  apply (auto simp add: bit_simps)
  done

lemma get_child_mask_set_child_offset:
  "get_child_mask (set_child_offset c node) = get_child_mask node"
  unfolding get_child_mask_def set_child_offset_def
  apply (simp add: mask8 notmask8)
  apply (rule bit_word_eqI)
  apply (auto simp add: bit_simps)
  done

text \<open>
  Claim C10. For every node: after \<open>set_child_mask(m)\<close> with \<open>m < 256\<close>,
  \<open>get_child_mask()\<close> returns \<open>m\<close> and \<open>get_child_offset()\<close> is what it was; after
  \<open>set_child_offset(c)\<close> with \<open>c < 2^24\<close>, \<open>get_child_offset()\<close> returns \<open>c\<close> and
  \<open>get_child_mask()\<close> is what it was.
\<close>

theorem setters_frame:
  "(m < 256 \<longrightarrow>
      get_child_mask (set_child_mask m node) = m \<and>
      get_child_offset (set_child_mask m node) = get_child_offset node) \<and>
   (c < 2 ^ 24 \<longrightarrow>
      get_child_offset (set_child_offset c node) = c \<and>
      get_child_mask (set_child_offset c node) = get_child_mask node)"
  by (simp add: get_child_mask_set_child_mask get_child_offset_set_child_mask
        get_child_offset_set_child_offset get_child_mask_set_child_offset)

theorem setters_frame_witness:
  "(0x0B :: 32 word) < 256 \<and> (5 :: 32 word) < 2 ^ 24 \<and>
   get_child_mask (set_child_mask 0x0B \<lparr>m_packed_info = 0x12345678\<rparr>) = 0x0B \<and>
   get_child_offset (set_child_mask 0x0B \<lparr>m_packed_info = 0x12345678\<rparr>) = 0x123456 \<and>
   get_child_offset (set_child_offset 5 \<lparr>m_packed_info = 0x12345678\<rparr>) = 5 \<and>
   get_child_mask (set_child_offset 5 \<lparr>m_packed_info = 0x12345678\<rparr>) = 0x78"
  using setters_frame [of "0x0B" "\<lparr>m_packed_info = 0x12345678\<rparr>" 5]
  by (simp add: get_child_offset_def get_child_mask_def)

subsection \<open>The full constructor\<close>

text \<open>
  The full constructor joins the shifted index and the mask with \<open>&\<close>. The shifted index
  has its low 8 bits clear, so with a mask below 256 the packed value is 0, whatever the
  index: the node reads back as a leaf at offset 0.
\<close>

lemma Octree_node_base_full_zero:
  assumes "m < 256"
  shows "Octree_node_base_full m index = \<lparr>m_packed_info = 0\<rparr>"
proof -
  from assms have m: "m < 2 ^ 8"
    by simp
  have "push_bit 8 index AND m = 0"
    apply (rule bit_word_eqI)
    using low_bits [OF m]
    apply (fastforce simp add: bit_simps)
    done
  then show ?thesis
    by (simp add: Octree_node_base_full_def)
qed

text \<open>
  Claim C3. For every 8-bit mask \<open>m\<close> and 24-bit offset \<open>off\<close>, the constructor
  \<open>Octree_node_base(mask, index)\<close> produces \<open>(off << 8) | m\<close>, so that \<open>get_child_mask()\<close>
  returns \<open>m\<close> and \<open>get_child_offset()\<close> returns \<open>off\<close>. The code does not: with the mask
  3 and the offset 5 the packed value is 0, not \<open>0x503\<close>, and both getters return 0.
\<close>

theorem Octree_node_base_full_loses_fields:
  "Octree_node_base_full 3 5 = \<lparr>m_packed_info = 0\<rparr> \<and>
   get_child_mask (Octree_node_base_full 3 5) = 0 \<and>
   get_child_offset (Octree_node_base_full 3 5) = 0 \<and>
   (push_bit 8 5 OR 3 :: 32 word) = 0x503"
  by (simp add: Octree_node_base_full_def get_child_mask_def get_child_offset_def)

subsection \<open>The octant lookup\<close>

lemma filter_shift:
  assumes "s \<le> n"
  shows "length (filter (\<lambda>j. s \<le> j \<and> P (j - s)) [0..<n]) = length (filter P [0..<n - s])"
proof -
  from assms have split: "[0..<n] = [0..<s] @ [s..<n]"
    using upt_add_eq_append [of 0 s "n - s"] by simp
  from assms have shift: "[s..<n] = map (\<lambda>j. j + s) [0..<n - s]"
    by (simp add: map_add_upt)
  have "filter (\<lambda>j. s \<le> j \<and> P (j - s)) [0..<s] = []"
    by (simp add: filter_empty_conv)
  then have "length (filter (\<lambda>j. s \<le> j \<and> P (j - s)) [0..<n])
               = length (filter (\<lambda>j. s \<le> j \<and> P (j - s)) [s..<n])"
    by (simp add: split)
  also have "\<dots> = length (filter ((\<lambda>j. s \<le> j \<and> P (j - s)) \<circ> (\<lambda>j. j + s)) [0..<n - s])"
    unfolding shift filter_map by simp
  also have "\<dots> = length (filter P [0..<n - s])"
    by (simp add: comp_def)
  finally show ?thesis .
qed

lemma popc_shifted_mask:
  assumes "s \<le> 8"
  shows "popc (ucast (push_bit s (m :: 32 word)) :: 8 word)
           = of_nat (length (filter (bit m) [0..<8 - s]))"
proof -
  have "filter (bit (ucast (push_bit s m) :: 8 word)) [0..<8]
          = filter (\<lambda>j. s \<le> j \<and> bit m (j - s)) [0..<8]"
    by (rule filter_cong) (auto simp add: bit_ucast_iff bit_push_bit_iff)
  then show ?thesis
    using filter_shift [OF assms, of "bit m"] by (simp add: popc_def)
qed

text \<open>
  The host variant cuts the shifted mask to 8 bits before counting, and so counts the
  set bits of the mask below position \<open>i\<close>.
\<close>

lemma get_octant_host_correct:
  assumes "i < 8"
  shows "get_octant_host kInvalid node i =
           (if bit (get_child_mask node) (unat i)
            then get_child_offset node
                   + of_nat (length (filter (bit (get_child_mask node)) [0..<unat i]))
            else kInvalid)"
proof -
  from assms have i: "unat i < 8"
    by (simp add: word_less_nat_alt)
  from assms have "i \<le> 8"
    by simp
  then have sub: "unat (8 - i) = 8 - unat i"
    by (simp add: unat_sub)
  with i have "8 - unat (8 - i) = unat i" and "unat (8 - i) \<le> 8"
    by simp_all
  then show ?thesis
    using popc_shifted_mask [of "unat (8 - i)" "get_child_mask node"]
    by (simp add: get_octant_host_def Let_def and_exp_test)
qed

text \<open>
  Claim C2. For every node with child mask \<open>m\<close> and child offset \<open>off\<close> and every \<open>i\<close> in
  \<open>[0,8)\<close>, \<open>get_octant(i)\<close> is \<open>kInvalid\<close> exactly when bit \<open>i\<close> of \<open>m\<close> is unset, and
  otherwise \<open>off\<close> plus the number of set bits of \<open>m\<close> below position \<open>i\<close>, in the host
  and in the device variant. The device variant does not cut the shifted mask to 8 bits:
  on the node with mask \<open>0x0B\<close> and offset 5 (packed \<open>0x50B\<close>), octant 3 has two set bits
  below it; the host variant returns \<open>5 + 2\<close>, the device variant \<open>5 + 3\<close>.
\<close>

theorem get_octant_device_counts_upper_bits:
  "get_child_mask \<lparr>m_packed_info = 0x50B\<rparr> = 0x0B \<and>
   get_child_offset \<lparr>m_packed_info = 0x50B\<rparr> = 5 \<and>
   get_octant_host kInvalid \<lparr>m_packed_info = 0x50B\<rparr> 3 = 7 \<and>
   get_octant_device kInvalid \<lparr>m_packed_info = 0x50B\<rparr> 3 = 8"
  by (simp add: get_octant_host_def get_octant_device_def get_child_mask_def
        get_child_offset_def popc_def upt_conv_Cons bit_simps)

section \<open>Properties of the generator\<close>

subsection \<open>Signed levels\<close>

lemma sint_pred: "- (2 ^ 31) < sint (w :: 32 word) \<Longrightarrow> sint (w - 1) = sint w - 1"
proof -
  assume low: "- (2 ^ 31) < sint w"
  have "sint w < 2 ^ 31"
    using sint_lt [of w] by simp
  with low have "signed_take_bit 31 (sint w - 1) = sint w - 1"
    by (intro signed_take_bit_int_eq_self) simp_all
  then show ?thesis
    by (simp add: sint_word_diff)
qed

lemma unat_nonneg_sint:
  assumes "0 \<le> sint (w :: 32 word)"
  shows "int (unat w) = sint w"
proof -
  have s: "sint w = signed_take_bit 31 (uint w)"
    by (simp add: sint_uint)
  have "uint w < 2 ^ 31"
  proof (rule ccontr)
    assume "\<not> uint w < 2 ^ 31"
    then have "2 ^ 31 \<le> uint w"
      by simp
    then have "signed_take_bit 31 (uint w) \<le> uint w - 2 ^ Suc 31"
      by (rule signed_take_bit_int_less_eq)
    moreover have "uint w < 2 ^ 32"
      using uint_lt2p [of w] by simp
    ultimately show False
      using assms s by simp
  qed
  moreover have "- (2 ^ 31) \<le> uint w"
    by (rule order_trans [of _ 0]) simp_all
  ultimately have "signed_take_bit 31 (uint w) = uint w"
    by (intro signed_take_bit_int_eq_self)
  with s show ?thesis
    by simp
qed

lemma sint_minus1_eq: "sint (w :: 32 word) = - 1 \<Longrightarrow> w = - 1"
proof -
  assume "sint w = - 1"
  then have "sint w = sint (- 1 :: 32 word)"
    by simp
  then show ?thesis
    by (simp only: word_eq_iff_signed [symmetric])
qed

subsection \<open>The leading bit difference\<close>

lemma and_exp_cases: "(x :: 32 word) AND 2 ^ n = (if bit x n then 2 ^ n else 0)"
  by (rule bit_word_eqI) (auto simp add: bit_simps)

lemma exp_nonzero: "n < 32 \<Longrightarrow> (2 :: 32 word) ^ n \<noteq> 0"
  by (simp add: exp_eq_zero_iff)

lemma mask_test_iff:
  "n < 32 \<Longrightarrow>
     ((code0 :: 32 word) AND 2 ^ n = code1 AND 2 ^ n) = (bit code0 n = bit code1 n)"
  using exp_nonzero [of n] by (auto simp add: and_exp_cases)

lemma find_leading_bit_difference_negative:
  "sint start_level < 0 \<Longrightarrow>
     find_leading_bit_difference start_level code0 code1 = start_level"
  by (simp add: find_leading_bit_difference.simps)

lemma find_leading_bit_difference_scan:
  "sint level \<le> 31 \<Longrightarrow> 0 \<le> sint level \<Longrightarrow>
     - 1 \<le> sint (find_leading_bit_difference level code0 code1) \<and>
     sint (find_leading_bit_difference level code0 code1) \<le> sint level \<and>
     (\<forall>l. sint (find_leading_bit_difference level code0 code1) < int l \<and> int l \<le> sint level
          \<longrightarrow> bit code0 l = bit code1 l) \<and>
     (0 \<le> sint (find_leading_bit_difference level code0 code1) \<longrightarrow>
        bit code0 (nat (sint (find_leading_bit_difference level code0 code1)))
          \<noteq> bit code1 (nat (sint (find_leading_bit_difference level code0 code1))))"
proof (induction level code0 code1 rule: find_leading_bit_difference.induct)
  case (1 level code0 code1)
  let ?n = "unat level"
  from "1.prems" have n: "int ?n = sint level"
    by (intro unat_nonneg_sint)
  then have nn: "nat (sint level) = ?n"
    by linarith
  from n "1.prems" have n32: "?n < 32" by linarith
  have top: "bit code0 l = bit code1 l"
    if "bit code0 ?n = bit code1 ?n" and "int l = sint level" for l
  proof -
    from that(2) have "l = nat (sint level)" by linarith
    with nn that(1) show ?thesis by simp
  qed
  show ?case
  proof (cases "bit code0 ?n \<noteq> bit code1 ?n")
    case True
    then have "find_leading_bit_difference level code0 code1 = level"
      using "1.prems" n32 by (subst find_leading_bit_difference.simps) (simp add: mask_test_iff Let_def)
    then show ?thesis
      using True "1.prems" nn by auto
  next
    case False
    then have eq: "find_leading_bit_difference level code0 code1
                     = find_leading_bit_difference (level - 1) code0 code1"
      using "1.prems" n32 by (subst find_leading_bit_difference.simps) (simp add: mask_test_iff Let_def)
    have pred: "sint (level - 1) = sint level - 1"
      using "1.prems" by (intro sint_pred) simp
    show ?thesis
    proof (cases "0 \<le> sint (level - 1)")
      case True
      have test: "\<not> code0 AND push_bit ?n 1 \<noteq> code1 AND push_bit ?n 1"
        using False n32 by (simp add: mask_test_iff)
      let ?r = "find_leading_bit_difference (level - 1) code0 code1"
      have le31: "sint (level - 1) \<le> 31"
        using pred "1.prems" by linarith
      have ih: "- 1 \<le> sint ?r \<and> sint ?r \<le> sint (level - 1) \<and>
         (\<forall>l. sint ?r < int l \<and> int l \<le> sint (level - 1) \<longrightarrow> bit code0 l = bit code1 l) \<and>
         (0 \<le> sint ?r \<longrightarrow> bit code0 (nat (sint ?r)) \<noteq> bit code1 (nat (sint ?r)))"
        by (rule "1.IH" [OF "1.prems"(2) refl test le31 True])
      have agree: "bit code0 l = bit code1 l" if "sint ?r < int l" and "int l \<le> sint level" for l
      proof (cases "int l = sint level")
        case True
        with False show ?thesis by (simp add: top)
      next
        case False
        with that pred have "int l \<le> sint (level - 1)" by linarith
        with ih that(1) show ?thesis by blast
      qed
      from ih pred have "- 1 \<le> sint ?r" and "sint ?r \<le> sint level"
        and "0 \<le> sint ?r \<longrightarrow> bit code0 (nat (sint ?r)) \<noteq> bit code1 (nat (sint ?r))"
        by simp_all
      with agree show ?thesis
        unfolding eq by blast
    next
      case neg: False
      then have r: "find_leading_bit_difference (level - 1) code0 code1 = level - 1"
        by (simp add: find_leading_bit_difference_negative)
      from neg pred "1.prems" have z: "sint level = 0" by linarith
      have agree: "bit code0 l = bit code1 l" if "int l \<le> sint level" for l
      proof -
        from that z have "int l = sint level" by linarith
        with False show ?thesis by (simp add: top)
      qed
      from pred z have "sint (level - 1) = - 1"
        by simp
      with agree z show ?thesis
        unfolding eq r by simp
    qed
  qed
qed

text \<open>
  Claim C6, as stated: \<open>find_leading_bit_difference(start_level, code0, code1)\<close> returns
  the highest bit position not above \<open>start_level\<close> at which the codes differ, and \<open>-1\<close>
  when they agree on every position from \<open>start_level\<close> down to 0. With a start level
  below \<open>-1\<close> the loop is not entered and the start level itself comes back: from \<open>-2\<close>
  the result is \<open>-2\<close>, though the two codes agree everywhere.
\<close>

theorem find_leading_bit_difference_below_bottom:
  "find_leading_bit_difference (- 2) 0 0 = - 2 \<and>
   find_leading_bit_difference (- 2) 0 0 \<noteq> - 1"
  by (simp add: find_leading_bit_difference.simps)

text \<open>
  Claim C6, amended. For a start level from 0 to 31 the result is \<open>-1\<close> when the codes
  agree on every position from the start level down to 0, and otherwise the highest
  position not above the start level at which they differ; a negative start level is
  returned as it is. With \<open>keep_singletons\<close> off the split kernel takes this function of
  the task's level, \<open>codes[begin]\<close> and \<open>codes[end-1]\<close> as its level; with
  \<open>keep_singletons\<close> on it keeps the task's level.
\<close>

theorem find_leading_bit_difference_highest:
  assumes "sint start_level \<le> 31"
  shows "(sint start_level < 0 \<longrightarrow>
            find_leading_bit_difference start_level code0 code1 = start_level) \<and>
         (0 \<le> sint start_level \<longrightarrow>
            (if \<forall>l. int l \<le> sint start_level \<longrightarrow> bit code0 l = bit code1 l
             then find_leading_bit_difference start_level code0 code1 = - 1
             else 0 \<le> sint (find_leading_bit_difference start_level code0 code1) \<and>
                  sint (find_leading_bit_difference start_level code0 code1) \<le> sint start_level \<and>
                  bit code0 (nat (sint (find_leading_bit_difference start_level code0 code1)))
                    \<noteq> bit code1 (nat (sint (find_leading_bit_difference start_level code0 code1))) \<and>
                  (\<forall>l. sint (find_leading_bit_difference start_level code0 code1) < int l \<and>
                       int l \<le> sint start_level \<longrightarrow> bit code0 l = bit code1 l))) \<and>
         split_level False codes in_task =
           find_leading_bit_difference (m_input in_task)
             (codes ! unat (m_begin in_task)) (codes ! unat (m_end in_task - 1)) \<and>
         split_level True codes in_task = m_input in_task"
proof -
  let ?r = "find_leading_bit_difference start_level code0 code1"
  have neg: "sint start_level < 0 \<longrightarrow> ?r = start_level"
    by (simp add: find_leading_bit_difference_negative)
  have pos: "if \<forall>l. int l \<le> sint start_level \<longrightarrow> bit code0 l = bit code1 l
             then ?r = - 1
             else 0 \<le> sint ?r \<and> sint ?r \<le> sint start_level \<and>
                  bit code0 (nat (sint ?r)) \<noteq> bit code1 (nat (sint ?r)) \<and>
                  (\<forall>l. sint ?r < int l \<and> int l \<le> sint start_level
                       \<longrightarrow> bit code0 l = bit code1 l)"
    if nonneg: "0 \<le> sint start_level"
  proof -
    note scan = find_leading_bit_difference_scan [OF assms nonneg, of code0 code1]
    from scan have lower: "- 1 \<le> sint ?r" and upper: "sint ?r \<le> sint start_level"
      and above: "\<And>l. sint ?r < int l \<Longrightarrow> int l \<le> sint start_level
                        \<Longrightarrow> bit code0 l = bit code1 l"
      and at: "0 \<le> sint ?r \<Longrightarrow> bit code0 (nat (sint ?r)) \<noteq> bit code1 (nat (sint ?r))"
      by blast+
    show ?thesis
    proof (cases "\<forall>l. int l \<le> sint start_level \<longrightarrow> bit code0 l = bit code1 l")
      case True
      have "\<not> 0 \<le> sint ?r"
      proof
        assume r: "0 \<le> sint ?r"
        then have "int (nat (sint ?r)) \<le> sint start_level"
          using upper by simp
        with True have "bit code0 (nat (sint ?r)) = bit code1 (nat (sint ?r))"
          by blast
        with at [OF r] show False
          by simp
      qed
      with lower have "sint ?r = - 1"
        by linarith
      then have "?r = - 1"
        by (rule sint_minus1_eq)
      then show ?thesis
        unfolding if_P [OF True] .
    next
      case False
      then obtain l where l: "int l \<le> sint start_level" "bit code0 l \<noteq> bit code1 l"
        by blast
      have "0 \<le> sint ?r"
      proof (rule ccontr)
        assume "\<not> 0 \<le> sint ?r"
        then have "sint ?r < int l"
          by linarith
        from above [OF this l(1)] l(2) show False
          by simp
      qed
      with upper at above show ?thesis
        unfolding if_not_P [OF False] by blast
    qed
  qed
  have lvl: "split_level False codes in_task =
               find_leading_bit_difference (m_input in_task)
                 (codes ! unat (m_begin in_task)) (codes ! unat (m_end in_task - 1))"
    and keep: "split_level True codes in_task = m_input in_task"
    by (simp_all add: split_level_def Let_def)
  from neg pos lvl keep show ?thesis
    by blast
qed

theorem find_leading_bit_difference_highest_witness:
  "sint (31 :: 32 word) \<le> 31 \<and>
   find_leading_bit_difference 31 5 5 = - 1 \<and>
   split_level False [4, 5] \<lparr>m_node = 0, m_begin = 0, m_end = 2, m_input = 31\<rparr>
     = find_leading_bit_difference 31 4 5"
  using find_leading_bit_difference_highest
          [of 31 5 5 "[4, 5]" "\<lparr>m_node = 0, m_begin = 0, m_end = 2, m_input = 31\<rparr>"]
  by simp

subsection \<open>One thread of the split kernel\<close>

lemma split_plan_leaf:
  "m_end t - m_begin t \<le> max_leaf_size \<Longrightarrow> split_plan max_leaf_size codes t level = (0, 0)"
  by (simp add: split_plan_def Let_def not_less [symmetric])

lemma split_plan_split:
  "\<not> m_end t - m_begin t \<le> max_leaf_size \<Longrightarrow>
     split_plan max_leaf_size codes t level =
       (if split_pivot codes (m_begin t) (m_end t) level = m_begin t
           \<or> split_pivot codes (m_begin t) (m_end t) level = m_end t then 1 else 2,
        split_pivot codes (m_begin t) (m_end t) level)"
  by (simp add: split_plan_def Let_def not_le)

lemma thread_leaf:
  assumes "m_end (in_tasks ! task_id) - m_begin (in_tasks ! task_id) \<le> max_leaf_size"
  shows "split_kernel_thread max_leaf_size keep_singletons codes in_tasks out_nodes_count task_id s =
           \<lparr>out_tasks_count = out_tasks_count s, out_tasks = out_tasks s,
            out_leaf_count = out_leaf_count s + 1,
            tree = tree s @
              [write_node (m_node (in_tasks ! task_id)) False False (out_leaf_count s),
               write_leaf (out_leaf_count s) (m_begin (in_tasks ! task_id))
                 (m_end (in_tasks ! task_id))]\<rparr>"
  by (simp add: split_kernel_thread_def Let_def split_plan_leaf [OF assms] alloc_def alloc1_def)

lemma thread_one:
  assumes "\<not> m_end (in_tasks ! task_id) - m_begin (in_tasks ! task_id) \<le> max_leaf_size"
    and "split_pivot codes (m_begin (in_tasks ! task_id)) (m_end (in_tasks ! task_id))
           (split_level keep_singletons codes (in_tasks ! task_id)) = m_begin (in_tasks ! task_id)
         \<or> split_pivot codes (m_begin (in_tasks ! task_id)) (m_end (in_tasks ! task_id))
           (split_level keep_singletons codes (in_tasks ! task_id)) = m_end (in_tasks ! task_id)"
  shows "split_kernel_thread max_leaf_size keep_singletons codes in_tasks out_nodes_count task_id s =
           \<lparr>out_tasks_count = out_tasks_count s + 1,
            out_tasks = (out_tasks s)[unat (out_tasks_count s) :=
              \<lparr>m_node = out_nodes_count + out_tasks_count s,
               m_begin = m_begin (in_tasks ! task_id), m_end = m_end (in_tasks ! task_id),
               m_input = split_level keep_singletons codes (in_tasks ! task_id) - 1\<rparr>],
            out_leaf_count = out_leaf_count s,
            tree = tree s @
              [write_node (m_node (in_tasks ! task_id))
                 (split_pivot codes (m_begin (in_tasks ! task_id)) (m_end (in_tasks ! task_id))
                    (split_level keep_singletons codes (in_tasks ! task_id))
                    \<noteq> m_begin (in_tasks ! task_id))
                 (split_pivot codes (m_begin (in_tasks ! task_id)) (m_end (in_tasks ! task_id))
                    (split_level keep_singletons codes (in_tasks ! task_id))
                    \<noteq> m_end (in_tasks ! task_id))
                 (out_nodes_count + out_tasks_count s)]\<rparr>"
  using assms(2)
  by (simp add: split_kernel_thread_def Let_def split_plan_split [OF assms(1)] alloc_def alloc1_def)

lemma thread_two:
  assumes "\<not> m_end (in_tasks ! task_id) - m_begin (in_tasks ! task_id) \<le> max_leaf_size"
    and "\<not> (split_pivot codes (m_begin (in_tasks ! task_id)) (m_end (in_tasks ! task_id))
           (split_level keep_singletons codes (in_tasks ! task_id)) = m_begin (in_tasks ! task_id)
         \<or> split_pivot codes (m_begin (in_tasks ! task_id)) (m_end (in_tasks ! task_id))
           (split_level keep_singletons codes (in_tasks ! task_id)) = m_end (in_tasks ! task_id))"
  shows "split_kernel_thread max_leaf_size keep_singletons codes in_tasks out_nodes_count task_id s =
           \<lparr>out_tasks_count = out_tasks_count s + 2,
            out_tasks = (out_tasks s)[unat (out_tasks_count s) :=
              \<lparr>m_node = out_nodes_count + out_tasks_count s,
               m_begin = m_begin (in_tasks ! task_id),
               m_end = split_pivot codes (m_begin (in_tasks ! task_id)) (m_end (in_tasks ! task_id))
                         (split_level keep_singletons codes (in_tasks ! task_id)),
               m_input = split_level keep_singletons codes (in_tasks ! task_id) - 1\<rparr>,
              unat (out_tasks_count s + 1) :=
              \<lparr>m_node = out_nodes_count + out_tasks_count s + 1,
               m_begin = split_pivot codes (m_begin (in_tasks ! task_id)) (m_end (in_tasks ! task_id))
                         (split_level keep_singletons codes (in_tasks ! task_id)),
               m_end = m_end (in_tasks ! task_id),
               m_input = split_level keep_singletons codes (in_tasks ! task_id) - 1\<rparr>],
            out_leaf_count = out_leaf_count s,
            tree = tree s @
              [write_node (m_node (in_tasks ! task_id)) True True
                 (out_nodes_count + out_tasks_count s)]\<rparr>"
  using assms(2)
  by (simp add: split_kernel_thread_def Let_def split_plan_split [OF assms(1)] alloc_def alloc1_def)


lemma find_pivot_loop_bounds:
  "lo \<le> find_pivot_loop xs p lo len \<and> find_pivot_loop xs p lo len \<le> lo + len"
proof (induction xs p lo len rule: find_pivot_loop.induct)
  case (1 xs p lo len)
  show ?case
  proof (cases "len = 0")
    case True
    then show ?thesis
      by (simp add: find_pivot_loop.simps)
  next
    case False
    show ?thesis
    proof (cases "p (xs ! (lo + len div 2))")
      case True
      with False have "find_pivot_loop xs p lo len = find_pivot_loop xs p lo (len div 2)"
        by (subst find_pivot_loop.simps) (simp add: Let_def)
      moreover have "lo \<le> find_pivot_loop xs p lo (len div 2) \<and>
                     find_pivot_loop xs p lo (len div 2) \<le> lo + len div 2"
        using "1.IH"(1) [OF False refl refl] True by simp
      moreover have "len div 2 \<le> len"
        by simp
      ultimately show ?thesis
        by linarith
    next
      case nopred: False
      with False have "find_pivot_loop xs p lo len
                         = find_pivot_loop xs p (lo + len div 2 + 1) (len - (len div 2 + 1))"
        by (subst find_pivot_loop.simps) (simp add: Let_def)
      moreover have "lo + len div 2 + 1
                       \<le> find_pivot_loop xs p (lo + len div 2 + 1) (len - (len div 2 + 1)) \<and>
                     find_pivot_loop xs p (lo + len div 2 + 1) (len - (len div 2 + 1))
                       \<le> lo + len div 2 + 1 + (len - (len div 2 + 1))"
        using "1.IH"(2) [OF False refl refl] nopred by simp
      moreover from False have "len div 2 + 1 \<le> len"
        by simp
      ultimately show ?thesis
        by linarith
    qed
  qed
qed

lemma split_pivot_bounds:
  assumes "unat b < unat e"
  shows "unat b \<le> unat (split_pivot codes b e level) \<and>
         unat (split_pivot codes b e level) \<le> unat e"
proof -
  let ?k = "find_pivot codes (unat b) (unat (e - b)) (mask_and (push_bit (unat level) 1))"
  from assms have "b \<le> e"
    by (simp add: word_le_nat_alt)
  then have "unat (e - b) = unat e - unat b"
    by (rule unat_sub)
  with assms find_pivot_loop_bounds [of "unat b" codes _ "unat (e - b)"]
  have k: "unat b \<le> ?k" "?k \<le> unat e"
    by (simp_all add: find_pivot_def)
  have "unat e < 2 ^ 32"
    using unsigned_less [of e] by simp
  with k have "?k < 2 ^ LENGTH(32)"
    by simp
  then have "unat (of_nat ?k :: 32 word) = ?k"
    by (simp add: of_nat_inverse)
  with k show ?thesis
    by (simp add: split_pivot_def)
qed


lemma take_update_one:
  "i < length xs \<Longrightarrow> take (Suc i) (xs[i := a]) = take i xs @ [a]"
  by (simp add: take_Suc_conv_app_nth)

lemma take_update_two:
  "Suc i < length xs \<Longrightarrow> take (Suc (Suc i)) (xs[i := a, Suc i := b]) = take i xs @ [a, b]"
proof -
  assume i: "Suc i < length xs"
  then have "take (Suc (Suc i)) (xs[i := a, Suc i := b])
               = take (Suc i) (xs[i := a, Suc i := b]) @ [b]"
    by (simp add: take_Suc_conv_app_nth)
  also from i have "take (Suc i) (xs[i := a, Suc i := b]) = take i xs @ [a]"
    by (simp add: take_Suc_conv_app_nth)
  finally show ?thesis
    by simp
qed

lemma unat_count_add:
  "unat (c :: 32 word) + k \<le> cap \<Longrightarrow> cap < 2 ^ 32 \<Longrightarrow> k < 2 ^ 32
     \<Longrightarrow> unat (c + of_nat k) = unat c + k"
proof -
  assume a: "unat c + k \<le> cap" "cap < 2 ^ 32" and k: "k < 2 ^ 32"
  from k have "unat (of_nat k :: 32 word) = k"
    by (simp add: of_nat_inverse)
  moreover from a have "unat c + k < 2 ^ LENGTH(32)"
    by simp
  ultimately show ?thesis
    using unat_add_lem [of c "of_nat k"] by simp
qed

lemma indices_single [simp]: "indices [r] = range_indices r"
  by (simp add: indices_def)

lemma indices_Nil [simp]: "indices [] = []"
  by (simp add: indices_def)

lemma indices_append [simp]: "indices (rs @ rs') = indices rs @ indices rs'"
  by (simp add: indices_def)

lemma indices_Cons [simp]: "indices (r # rs) = range_indices r @ indices rs"
  by (simp add: indices_def)

lemma leaf_ranges_append [simp]:
  "leaf_ranges (calls @ calls') = leaf_ranges calls @ leaf_ranges calls'"
  by (induction calls rule: leaf_ranges.induct) simp_all

lemma split_kernel_thread_step:
  assumes s': "s' = split_kernel_thread max_leaf_size keep_singletons codes in_tasks
                      out_nodes_count task_id s"
    and t: "t = in_tasks ! task_id"
    and live: "live_task n t"
    and room: "unat (out_tasks_count s) + (unat (m_end t) - unat (m_begin t)) \<le> cap"
    and cap: "cap \<le> length (out_tasks s)" "cap < 2 ^ 32"
  shows "\<exists>cs calls.
           take (unat (out_tasks_count s')) (out_tasks s')
             = take (unat (out_tasks_count s)) (out_tasks s) @ cs \<and>
           unat (out_tasks_count s') = unat (out_tasks_count s) + length cs \<and>
           length (out_tasks s') = length (out_tasks s) \<and>
           tree s' = tree s @ calls \<and>
           (\<forall>c\<in>set cs. live_task n c \<and>
                m_input c = split_level keep_singletons codes t - 1 \<and>
                unat (m_begin t) \<le> unat (m_begin c) \<and> unat (m_end c) \<le> unat (m_end t)) \<and>
           mset (indices (map task_range cs)) + mset (indices (leaf_ranges calls))
             = mset (range_indices (task_range t)) \<and>
           length cs \<le> unat (m_end t) - unat (m_begin t) \<and>
           (\<forall>r\<in>set (leaf_ranges calls). unat (fst r) < unat (snd r) \<and> unat (snd r) \<le> n)"
proof -
  let ?b = "m_begin t" and ?e = "m_end t"
  let ?lvl = "split_level keep_singletons codes t"
  let ?split = "split_pivot codes ?b ?e ?lvl"
  let ?c = "out_tasks_count s"
  from live have be: "unat ?b < unat ?e" and en: "unat ?e \<le> n"
    by (simp_all add: live_task_def)
  show ?thesis
  proof (cases "?e - ?b \<le> max_leaf_size")
    case True
    let ?calls = "[write_node (m_node t) False False (out_leaf_count s),
                   write_leaf (out_leaf_count s) ?b ?e]"
    from True have "s' = \<lparr>out_tasks_count = ?c, out_tasks = out_tasks s,
                          out_leaf_count = out_leaf_count s + 1, tree = tree s @ ?calls\<rparr>"
      unfolding s' t by (rule thread_leaf)
    with be en show ?thesis
      by (intro exI [of _ "[]"] exI [of _ ?calls]) (simp add: task_range_def)
  next
    case split: False
    from be room cap have c1: "unat ?c + 1 \<le> cap" and c_in: "unat ?c < length (out_tasks s)"
      by simp_all
    from unat_count_add [OF c1 cap(2)] have u1: "unat (?c + 1) = unat ?c + 1"
      by simp
    note bounds = split_pivot_bounds [OF be, of codes ?lvl]
    show ?thesis
    proof (cases "?split = ?b \<or> ?split = ?e")
      case True
      let ?child = "\<lparr>m_node = out_nodes_count + ?c, m_begin = ?b, m_end = ?e,
                      m_input = ?lvl - 1\<rparr>"
      let ?calls = "[write_node (m_node t) (?split \<noteq> ?b) (?split \<noteq> ?e) (out_nodes_count + ?c)]"
      from split True
      have "s' = \<lparr>out_tasks_count = ?c + 1, out_tasks = (out_tasks s)[unat ?c := ?child],
                  out_leaf_count = out_leaf_count s, tree = tree s @ ?calls\<rparr>"
        unfolding s' t by (rule thread_one)
      moreover have "live_task n ?child"
        using be en by (simp add: live_task_def)
      moreover have "1 \<le> unat ?e - unat ?b"
        using be by simp
      ultimately show ?thesis
        using u1 c_in
        by (intro exI [of _ "[?child]"] exI [of _ ?calls])
           (simp add: task_range_def take_update_one range_indices_def)
    next
      case False
      let ?left = "\<lparr>m_node = out_nodes_count + ?c, m_begin = ?b, m_end = ?split,
                     m_input = ?lvl - 1\<rparr>"
      let ?right = "\<lparr>m_node = out_nodes_count + ?c + 1, m_begin = ?split, m_end = ?e,
                      m_input = ?lvl - 1\<rparr>"
      let ?calls = "[write_node (m_node t) True True (out_nodes_count + ?c)]"
      from False have "unat ?split \<noteq> unat ?b" and "unat ?split \<noteq> unat ?e"
        by (simp_all add: word_unat_eq_iff)
      with bounds have inner: "unat ?b < unat ?split" "unat ?split < unat ?e"
        by simp_all
      with room cap have c2: "unat ?c + 2 \<le> cap" and c_in2: "unat ?c + 1 < length (out_tasks s)"
        by simp_all
      from unat_count_add [OF c2 cap(2)] have u2: "unat (?c + 2) = unat ?c + 2"
        by simp
      from split False
      have "s' = \<lparr>out_tasks_count = ?c + 2,
                  out_tasks = (out_tasks s)[unat ?c := ?left, unat (?c + 1) := ?right],
                  out_leaf_count = out_leaf_count s, tree = tree s @ ?calls\<rparr>"
        unfolding s' t by (rule thread_two)
      moreover have "live_task n ?left" "live_task n ?right"
        using inner en by (simp_all add: live_task_def)
      moreover have "2 \<le> unat ?e - unat ?b"
        using inner by simp
      moreover have "[unat ?b..<unat ?split] @ [unat ?split..<unat ?e] = [unat ?b..<unat ?e]"
        using inner upt_add_eq_append [of "unat ?b" "unat ?split" "unat ?e - unat ?split"]
        by simp
      then have "mset [unat ?b..<unat ?split] + mset [unat ?split..<unat ?e]
                   = mset [unat ?b..<unat ?e]"
        by (metis mset_append)
      ultimately show ?thesis
        using u1 u2 c_in2 inner
        by (intro exI [of _ "[?left, ?right]"] exI [of _ ?calls])
           (simp add: task_range_def take_update_two range_indices_def)
    qed
  qed
qed


lemma length_range_indices [simp]:
  "length (range_indices (task_range t)) = unat (m_end t) - unat (m_begin t)"
  by (simp add: range_indices_def task_range_def)

lemma split_kernel_fold:
  assumes s': "s' = fold (split_kernel_thread max_leaf_size keep_singletons codes in_tasks
                          out_nodes_count) ids s"
    and live: "\<forall>i\<in>set ids. live_task n (in_tasks ! i)"
    and room: "unat (out_tasks_count s)
                 + length (indices (map (\<lambda>i. task_range (in_tasks ! i)) ids)) \<le> cap"
    and cap: "cap \<le> length (out_tasks s)" "cap < 2 ^ 32"
  shows "\<exists>cs calls.
           take (unat (out_tasks_count s')) (out_tasks s')
             = take (unat (out_tasks_count s)) (out_tasks s) @ cs \<and>
           unat (out_tasks_count s') = unat (out_tasks_count s) + length cs \<and>
           length (out_tasks s') = length (out_tasks s) \<and>
           tree s' = tree s @ calls \<and>
           (\<forall>c\<in>set cs. live_task n c \<and>
                (\<exists>i\<in>set ids.
                   m_input c = split_level keep_singletons codes (in_tasks ! i) - 1 \<and>
                   unat (m_begin (in_tasks ! i)) \<le> unat (m_begin c) \<and>
                   unat (m_end c) \<le> unat (m_end (in_tasks ! i)))) \<and>
           mset (indices (map task_range cs)) + mset (indices (leaf_ranges calls))
             = mset (indices (map (\<lambda>i. task_range (in_tasks ! i)) ids)) \<and>
           (\<forall>r\<in>set (leaf_ranges calls). unat (fst r) < unat (snd r) \<and> unat (snd r) \<le> n)"
  using s' live room cap
proof (induction ids arbitrary: s)
  case Nil
  then show ?case
    by (intro exI [of _ "[]"]) simp
next
  case (Cons i ids)
  let ?thread = "split_kernel_thread max_leaf_size keep_singletons codes in_tasks out_nodes_count"
  let ?t = "in_tasks ! i"
  let ?s1 = "?thread i s"
  from Cons.prems(2) have live_t: "live_task n ?t"
    by simp
  from Cons.prems(3)
  have room_t: "unat (out_tasks_count s) + (unat (m_end ?t) - unat (m_begin ?t)) \<le> cap"
    by simp
  from split_kernel_thread_step [OF refl refl live_t room_t Cons.prems(4,5)]
  obtain cs1 calls1 where
    q1: "take (unat (out_tasks_count ?s1)) (out_tasks ?s1)
           = take (unat (out_tasks_count s)) (out_tasks s) @ cs1"
    and n1: "unat (out_tasks_count ?s1) = unat (out_tasks_count s) + length cs1"
    and l1: "length (out_tasks ?s1) = length (out_tasks s)"
    and t1: "tree ?s1 = tree s @ calls1"
    and c1: "\<forall>c\<in>set cs1. live_task n c \<and>
                m_input c = split_level keep_singletons codes ?t - 1 \<and>
                unat (m_begin ?t) \<le> unat (m_begin c) \<and> unat (m_end c) \<le> unat (m_end ?t)"
    and m1: "mset (indices (map task_range cs1)) + mset (indices (leaf_ranges calls1))
               = mset (range_indices (task_range ?t))"
    and k1: "length cs1 \<le> unat (m_end ?t) - unat (m_begin ?t)"
    and r1: "\<forall>r\<in>set (leaf_ranges calls1). unat (fst r) < unat (snd r) \<and> unat (snd r) \<le> n"
    by blast
  have s'_eq: "s' = fold ?thread ids ?s1"
    using Cons.prems(1) by simp
  have live_rest: "\<forall>i\<in>set ids. live_task n (in_tasks ! i)"
    using Cons.prems(2) by simp
  have room_rest: "unat (out_tasks_count ?s1)
                     + length (indices (map (\<lambda>i. task_range (in_tasks ! i)) ids)) \<le> cap"
    using Cons.prems(3) n1 k1 by simp
  have cap_rest: "cap \<le> length (out_tasks ?s1)"
    using Cons.prems(4) l1 by simp
  from Cons.IH [OF s'_eq live_rest room_rest cap_rest Cons.prems(5)]
  obtain cs2 calls2 where
    q2: "take (unat (out_tasks_count s')) (out_tasks s')
           = take (unat (out_tasks_count ?s1)) (out_tasks ?s1) @ cs2"
    and n2: "unat (out_tasks_count s') = unat (out_tasks_count ?s1) + length cs2"
    and l2: "length (out_tasks s') = length (out_tasks ?s1)"
    and t2: "tree s' = tree ?s1 @ calls2"
    and c2: "\<forall>c\<in>set cs2. live_task n c \<and>
                (\<exists>i\<in>set ids.
                   m_input c = split_level keep_singletons codes (in_tasks ! i) - 1 \<and>
                   unat (m_begin (in_tasks ! i)) \<le> unat (m_begin c) \<and>
                   unat (m_end c) \<le> unat (m_end (in_tasks ! i)))"
    and m2: "mset (indices (map task_range cs2)) + mset (indices (leaf_ranges calls2))
               = mset (indices (map (\<lambda>i. task_range (in_tasks ! i)) ids))"
    and r2: "\<forall>r\<in>set (leaf_ranges calls2). unat (fst r) < unat (snd r) \<and> unat (snd r) \<le> n"
    by blast
  have "take (unat (out_tasks_count s')) (out_tasks s')
          = take (unat (out_tasks_count s)) (out_tasks s) @ (cs1 @ cs2)"
    using q1 q2 by simp
  moreover have "unat (out_tasks_count s') = unat (out_tasks_count s) + length (cs1 @ cs2)"
    using n1 n2 by simp
  moreover have "length (out_tasks s') = length (out_tasks s)"
    using l1 l2 by simp
  moreover have "tree s' = tree s @ (calls1 @ calls2)"
    using t1 t2 by simp
  moreover have "\<forall>c\<in>set (cs1 @ cs2). live_task n c \<and>
                (\<exists>j\<in>set (i # ids).
                   m_input c = split_level keep_singletons codes (in_tasks ! j) - 1 \<and>
                   unat (m_begin (in_tasks ! j)) \<le> unat (m_begin c) \<and>
                   unat (m_end c) \<le> unat (m_end (in_tasks ! j)))"
    using c1 c2 by auto
  moreover have "mset (indices (map task_range (cs1 @ cs2)))
                   + mset (indices (leaf_ranges (calls1 @ calls2)))
                   = mset (indices (map (\<lambda>i. task_range (in_tasks ! i)) (i # ids)))"
    using m1 m2 by (simp add: ac_simps)
  moreover have "\<forall>r\<in>set (leaf_ranges (calls1 @ calls2)).
                   unat (fst r) < unat (snd r) \<and> unat (snd r) \<le> n"
    using r1 r2 by auto
  ultimately show ?case
    by blast
qed

text \<open>
  A thread reads the key array only inside the range of its task: the two ends of the range
  for the level, the cells of the range for the pivot. For a task whose range is a non-empty
  part of \<open>[0, n)\<close> the thread is therefore the same on two key arrays that
  agree below \<open>n\<close>, whatever lies beyond.
\<close>

lemma find_pivot_loop_frame:
  assumes "\<forall>i. lo \<le> i \<and> i < lo + len \<longrightarrow> xs ! i = ys ! i"
  shows "find_pivot_loop xs p lo len = find_pivot_loop ys p lo len"
  using assms
proof (induction xs p lo len rule: find_pivot_loop.induct)
  case (1 xs p lo len)
  show ?case
  proof (cases "len = 0")
    case True
    then show ?thesis
      by (simp add: find_pivot_loop.simps)
  next
    case False
    then have mid: "xs ! (lo + len div 2) = ys ! (lo + len div 2)"
      using "1.prems" by simp
    show ?thesis
    proof (cases "p (xs ! (lo + len div 2))")
      case True
      have "\<forall>i. lo \<le> i \<and> i < lo + len div 2 \<longrightarrow> xs ! i = ys ! i"
        using "1.prems" by auto
      then have "find_pivot_loop xs p lo (len div 2) = find_pivot_loop ys p lo (len div 2)"
        by (rule "1.IH"(1) [OF False refl refl True])
      with False True mid show ?thesis
        by (subst (1 2) find_pivot_loop.simps) (simp add: Let_def)
    next
      case nopred: False
      have "\<forall>i. lo + len div 2 + 1 \<le> i \<and> i < lo + len div 2 + 1 + (len - (len div 2 + 1))
                \<longrightarrow> xs ! i = ys ! i"
        using "1.prems" False by auto
      then have "find_pivot_loop xs p (lo + len div 2 + 1) (len - (len div 2 + 1))
              = find_pivot_loop ys p (lo + len div 2 + 1) (len - (len div 2 + 1))"
        by (rule "1.IH"(2) [OF False refl refl nopred])
      with False nopred mid show ?thesis
        by (subst (1 2) find_pivot_loop.simps) (simp add: Let_def)
    qed
  qed
qed

lemma live_task_reads:
  assumes "live_task n t"
  shows "unat (m_begin t) < n" and "unat (m_end t - 1) < n"
    and "unat (m_begin t) + unat (m_end t - m_begin t) \<le> n"
proof -
  from assms have be: "unat (m_begin t) < unat (m_end t)" and en: "unat (m_end t) \<le> n"
    by (simp_all add: live_task_def)
  then show "unat (m_begin t) < n"
    by simp
  from be have "1 \<le> m_end t"
    by (simp add: word_le_nat_alt)
  then have "unat (m_end t - 1) = unat (m_end t) - 1"
    by (simp add: unat_sub)
  with be en show "unat (m_end t - 1) < n"
    by simp
  from be have "m_begin t \<le> m_end t"
    by (simp add: word_le_nat_alt)
  then have "unat (m_end t - m_begin t) = unat (m_end t) - unat (m_begin t)"
    by (rule unat_sub)
  with be en show "unat (m_begin t) + unat (m_end t - m_begin t) \<le> n"
    by simp
qed

lemma split_kernel_thread_frame:
  assumes live: "live_task n (in_tasks ! task_id)" and same: "\<forall>i<n. codes ! i = codes' ! i"
  shows "split_kernel_thread max_leaf_size keep_singletons codes in_tasks out_nodes_count task_id s
           = split_kernel_thread max_leaf_size keep_singletons codes' in_tasks out_nodes_count
               task_id s"
proof -
  let ?t = "in_tasks ! task_id"
  note reads = live_task_reads [OF live]
  from reads(1,2) same have "codes ! unat (m_begin ?t) = codes' ! unat (m_begin ?t)"
    and "codes ! unat (m_end ?t - 1) = codes' ! unat (m_end ?t - 1)"
    by simp_all
  then have level: "split_level keep_singletons codes ?t = split_level keep_singletons codes' ?t"
    by (simp add: split_level_def Let_def)
  have "\<forall>i. unat (m_begin ?t) \<le> i \<and> i < unat (m_begin ?t) + unat (m_end ?t - m_begin ?t)
            \<longrightarrow> codes ! i = codes' ! i"
    using reads(3) same by simp
  then have "split_pivot codes (m_begin ?t) (m_end ?t) level
               = split_pivot codes' (m_begin ?t) (m_end ?t) level" for level
    unfolding split_pivot_def find_pivot_def by (simp add: find_pivot_loop_frame [of _ _ codes codes'])
  then have plan: "split_plan max_leaf_size codes ?t level
                     = split_plan max_leaf_size codes' ?t level" for level
    by (simp add: split_plan_def Let_def)
  show ?thesis
    unfolding split_kernel_thread_def Let_def level plan ..
qed

subsection \<open>Leaves and children of one thread\<close>

lemma split_plan_count_zero_iff:
  "(fst (split_plan max_leaf_size codes t level) = 0) = (m_end t - m_begin t \<le> max_leaf_size)"
proof (cases "m_end t - m_begin t \<le> max_leaf_size")
  case True
  then show ?thesis
    by (simp add: split_plan_leaf)
next
  case False
  then show ?thesis
    by (simp add: split_plan_split)
qed

text \<open>
  Claim C4. In the split stage a task with range \<open>[begin, end)\<close> becomes a leaf
  (\<open>output_count = 0\<close>, one leaf slot allocated, the leaf record \<open>(begin, end)\<close> written)
  if and only if \<open>end - begin <= max_leaf_size\<close>; in particular, with
  \<open>max_leaf_size >= 1\<close>, every task whose range has size 1 becomes a leaf. The difference
  \<open>end - begin\<close> is the \<open>uint32\<close> difference the kernel tests. The leaf slot is the value
  of the leaf counter before the thread.
\<close>

theorem split_thread_leaf_iff:
  assumes "t = in_tasks ! task_id"
    and "s' = split_kernel_thread max_leaf_size keep_singletons codes in_tasks
                out_nodes_count task_id s"
    and "output_count = fst (split_plan max_leaf_size codes t
                               (split_level keep_singletons codes t))"
  shows "(m_end t - m_begin t \<le> max_leaf_size \<longrightarrow>
            output_count = 0 \<and>
            out_leaf_count s' = out_leaf_count s + 1 \<and>
            tree s' = tree s @ [write_node (m_node t) False False (out_leaf_count s),
                                write_leaf (out_leaf_count s) (m_begin t) (m_end t)] \<and>
            out_tasks_count s' = out_tasks_count s \<and> out_tasks s' = out_tasks s) \<and>
         (\<not> m_end t - m_begin t \<le> max_leaf_size \<longrightarrow>
            output_count \<noteq> 0 \<and>
            out_leaf_count s' = out_leaf_count s \<and>
            take (length (tree s)) (tree s') = tree s \<and>
            leaf_ranges (drop (length (tree s)) (tree s')) = []) \<and>
         (1 \<le> max_leaf_size \<longrightarrow> m_end t - m_begin t = 1 \<longrightarrow>
            output_count = 0 \<and>
            out_leaf_count s' = out_leaf_count s + 1 \<and>
            tree s' = tree s @ [write_node (m_node t) False False (out_leaf_count s),
                                write_leaf (out_leaf_count s) (m_begin t) (m_end t)])"
proof -
  have leaf: "output_count = 0 \<and>
            out_leaf_count s' = out_leaf_count s + 1 \<and>
            tree s' = tree s @ [write_node (m_node t) False False (out_leaf_count s),
                                write_leaf (out_leaf_count s) (m_begin t) (m_end t)] \<and>
            out_tasks_count s' = out_tasks_count s \<and> out_tasks s' = out_tasks s"
    if small: "m_end t - m_begin t \<le> max_leaf_size"
  proof -
    from small have "m_end (in_tasks ! task_id) - m_begin (in_tasks ! task_id) \<le> max_leaf_size"
      by (simp add: assms(1))
    from thread_leaf [OF this] small show ?thesis
      by (simp add: assms split_plan_count_zero_iff)
  qed
  have inner: "output_count \<noteq> 0 \<and>
            out_leaf_count s' = out_leaf_count s \<and>
            take (length (tree s)) (tree s') = tree s \<and>
            leaf_ranges (drop (length (tree s)) (tree s')) = []"
    if large: "\<not> m_end t - m_begin t \<le> max_leaf_size"
  proof -
    from large
    have l: "\<not> m_end (in_tasks ! task_id) - m_begin (in_tasks ! task_id) \<le> max_leaf_size"
      by (simp add: assms(1))
    let ?split = "split_pivot codes (m_begin (in_tasks ! task_id)) (m_end (in_tasks ! task_id))
                    (split_level keep_singletons codes (in_tasks ! task_id))"
    show ?thesis
    proof (cases "?split = m_begin (in_tasks ! task_id) \<or> ?split = m_end (in_tasks ! task_id)")
      case True
      from thread_one [OF l True] large show ?thesis
        by (simp add: assms split_plan_count_zero_iff)
    next
      case False
      from thread_two [OF l False] large show ?thesis
        by (simp add: assms split_plan_count_zero_iff)
    qed
  qed
  have "m_end t - m_begin t \<le> max_leaf_size" if "1 \<le> max_leaf_size" "m_end t - m_begin t = 1"
    using that by simp
  with leaf inner show ?thesis
    by blast
qed

theorem split_thread_leaf_iff_witness:
  "(1 :: 32 word) - 0 \<le> 1 \<and>
   split_kernel_thread 1 False [5] [\<lparr>m_node = 0, m_begin = 0, m_end = 1, m_input = 2\<rparr>] 1 0
     \<lparr>out_tasks_count = 0, out_tasks = [], out_leaf_count = 0, tree = []\<rparr>
     = \<lparr>out_tasks_count = 0, out_tasks = [], out_leaf_count = 1,
        tree = [write_node 0 False False 0, write_leaf 0 0 1]\<rparr> \<and>
   \<not> (2 :: 32 word) - 0 \<le> 1 \<and>
   tree (split_kernel_thread 1 True [0, 1] [\<lparr>m_node = 0, m_begin = 0, m_end = 2, m_input = 0\<rparr>] 1 0
     \<lparr>out_tasks_count = 0,
      out_tasks = [\<lparr>m_node = 0, m_begin = 0, m_end = 0, m_input = 0\<rparr>,
                   \<lparr>m_node = 0, m_begin = 0, m_end = 0, m_input = 0\<rparr>],
      out_leaf_count = 0, tree = []\<rparr>)
     = [write_node 0 True True 1]"
  using split_thread_leaf_iff [OF refl refl refl,
          where in_tasks = "[\<lparr>m_node = 0, m_begin = 0, m_end = 1, m_input = 2\<rparr>]"
            and task_id = 0 and max_leaf_size = 1 and keep_singletons = False
            and codes = "[5]" and out_nodes_count = 1
            and s = "\<lparr>out_tasks_count = 0, out_tasks = [], out_leaf_count = 0, tree = []\<rparr>"]
    split_thread_leaf_iff [OF refl refl refl,
          where in_tasks = "[\<lparr>m_node = 0, m_begin = 0, m_end = 2, m_input = 0\<rparr>]"
            and task_id = 0 and max_leaf_size = 1 and keep_singletons = True
            and codes = "[0, 1]" and out_nodes_count = 1
            and s = "\<lparr>out_tasks_count = 0,
                       out_tasks = [\<lparr>m_node = 0, m_begin = 0, m_end = 0, m_input = 0\<rparr>,
                                    \<lparr>m_node = 0, m_begin = 0, m_end = 0, m_input = 0\<rparr>],
                       out_leaf_count = 0, tree = []\<rparr>"]
  apply (simp add: split_kernel_thread_def split_plan_def split_level_def split_pivot_def find_pivot_def
          find_pivot_loop.simps mask_and_def alloc_def alloc1_def Let_def)
  done

text \<open>
  Claim C5. For a task that needs a split: when the pivot \<open>split_index\<close> is \<open>begin\<close> or
  \<open>end\<close>, one child task is emitted, with the range \<open>[begin, end)\<close> and the level one
  lower; otherwise two child tasks are emitted, with the ranges \<open>[begin, split_index)\<close>
  and \<open>[split_index, end)\<close>, both with the level one lower. The \<open>k\<close>-th child has the node
  index \<open>out_nodes_count + offset + k\<close> and goes to the slot \<open>offset + k\<close> of the output
  queue, where \<open>offset\<close> is the base that the allocator returns. The level is the one the
  thread works with (\<open>split_level\<close>).
\<close>

theorem split_thread_children:
  assumes "t = in_tasks ! task_id"
    and "s' = split_kernel_thread max_leaf_size keep_singletons codes in_tasks
                out_nodes_count task_id s"
    and "level = split_level keep_singletons codes t"
    and "split_index = split_pivot codes (m_begin t) (m_end t) level"
    and "offset = fst (alloc (fst (split_plan max_leaf_size codes t level)) (out_tasks_count s))"
    and "m_end t - m_begin t > max_leaf_size"
  shows "(split_index = m_begin t \<or> split_index = m_end t \<longrightarrow>
            out_tasks_count s' = out_tasks_count s + 1 \<and>
            out_tasks s' = (out_tasks s)[unat offset :=
              \<lparr>m_node = out_nodes_count + offset + 0, m_begin = m_begin t, m_end = m_end t,
               m_input = level - 1\<rparr>]) \<and>
         (\<not> (split_index = m_begin t \<or> split_index = m_end t) \<longrightarrow>
            out_tasks_count s' = out_tasks_count s + 2 \<and>
            out_tasks s' = (out_tasks s)[unat offset :=
              \<lparr>m_node = out_nodes_count + offset + 0, m_begin = m_begin t, m_end = split_index,
               m_input = level - 1\<rparr>,
              unat (offset + 1) :=
              \<lparr>m_node = out_nodes_count + offset + 1, m_begin = split_index, m_end = m_end t,
               m_input = level - 1\<rparr>])"
proof -
  from assms(6)
  have l: "\<not> m_end (in_tasks ! task_id) - m_begin (in_tasks ! task_id) \<le> max_leaf_size"
    by (simp add: assms(1) not_le)
  have off: "offset = out_tasks_count s"
    by (simp add: assms(5) alloc_def)
  let ?split = "split_pivot codes (m_begin (in_tasks ! task_id)) (m_end (in_tasks ! task_id))
                  (split_level keep_singletons codes (in_tasks ! task_id))"
  have split: "split_index = ?split"
    by (simp add: assms)
  show ?thesis
  proof (cases "?split = m_begin (in_tasks ! task_id) \<or> ?split = m_end (in_tasks ! task_id)")
    case True
    from thread_one [OF l True] True show ?thesis
      by (simp add: assms(1,2,3) split off)
  next
    case False
    from thread_two [OF l False] False show ?thesis
      by (simp add: assms(1,2,3) split off)
  qed
qed

theorem split_thread_children_witness:
  "(2 :: 32 word) - 0 > 1 \<and>
   split_pivot [0, 1] 0 2 0 = 1 \<and>
   split_kernel_thread 1 True [0, 1] [\<lparr>m_node = 0, m_begin = 0, m_end = 2, m_input = 0\<rparr>] 1 0
     \<lparr>out_tasks_count = 0,
      out_tasks = [\<lparr>m_node = 0, m_begin = 0, m_end = 0, m_input = 0\<rparr>,
                   \<lparr>m_node = 0, m_begin = 0, m_end = 0, m_input = 0\<rparr>],
      out_leaf_count = 0, tree = []\<rparr>
     = \<lparr>out_tasks_count = 2,
        out_tasks = [\<lparr>m_node = 1, m_begin = 0, m_end = 1, m_input = - 1\<rparr>,
                     \<lparr>m_node = 2, m_begin = 1, m_end = 2, m_input = - 1\<rparr>],
        out_leaf_count = 0, tree = [write_node 0 True True 1]\<rparr> \<and>
   split_pivot [4, 6] 0 2 0 = 2 \<and>
   out_tasks (split_kernel_thread 1 True [4, 6]
     [\<lparr>m_node = 0, m_begin = 0, m_end = 2, m_input = 0\<rparr>] 1 0
     \<lparr>out_tasks_count = 0,
      out_tasks = [\<lparr>m_node = 0, m_begin = 0, m_end = 0, m_input = 0\<rparr>,
                   \<lparr>m_node = 0, m_begin = 0, m_end = 0, m_input = 0\<rparr>],
      out_leaf_count = 0, tree = []\<rparr>)
     = [\<lparr>m_node = 1, m_begin = 0, m_end = 2, m_input = - 1\<rparr>,
        \<lparr>m_node = 0, m_begin = 0, m_end = 0, m_input = 0\<rparr>]"
  using split_thread_children [OF refl refl refl refl refl,
          where in_tasks = "[\<lparr>m_node = 0, m_begin = 0, m_end = 2, m_input = 0\<rparr>]"
            and task_id = 0 and max_leaf_size = 1 and keep_singletons = True
            and codes = "[0, 1]" and out_nodes_count = 1
            and s = "\<lparr>out_tasks_count = 0,
                       out_tasks = [\<lparr>m_node = 0, m_begin = 0, m_end = 0, m_input = 0\<rparr>,
                                    \<lparr>m_node = 0, m_begin = 0, m_end = 0, m_input = 0\<rparr>],
                       out_leaf_count = 0, tree = []\<rparr>"]
    split_thread_children [OF refl refl refl refl refl,
          where in_tasks = "[\<lparr>m_node = 0, m_begin = 0, m_end = 2, m_input = 0\<rparr>]"
            and task_id = 0 and max_leaf_size = 1 and keep_singletons = True
            and codes = "[4, 6]" and out_nodes_count = 1
            and s = "\<lparr>out_tasks_count = 0,
                       out_tasks = [\<lparr>m_node = 0, m_begin = 0, m_end = 0, m_input = 0\<rparr>,
                                    \<lparr>m_node = 0, m_begin = 0, m_end = 0, m_input = 0\<rparr>],
                       out_leaf_count = 0, tree = []\<rparr>"]
  by (simp add: split_kernel_thread_def split_plan_def split_level_def split_pivot_def
        find_pivot_def find_pivot_loop.simps mask_and_def alloc_def alloc1_def Let_def)

lemma gen_leaves_kernel_thread_eq:
  "gen_leaves_kernel_thread in_tasks task_id (leaf_count, calls) =
     (leaf_count + 1,
      calls @ [write_node (m_node (in_tasks ! task_id)) False False leaf_count,
               write_leaf leaf_count (m_begin (in_tasks ! task_id))
                 (m_end (in_tasks ! task_id))])"
  by (simp add: gen_leaves_kernel_thread_def Let_def alloc1_def alloc_def)

text \<open>
  Claim C9. For every task, a thread of the leaf kernel takes one leaf slot, calls
  \<open>write_node(node, false, false, leaf_index)\<close> and \<open>write_leaf(leaf_index, begin, end)\<close>;
  a thread of the split kernel with \<open>output_count = 0\<close> has the same effect on the leaf
  counter and the tree, and leaves the output queue and its counter as they are.
\<close>

theorem gen_leaves_thread_as_split_leaf:
  "gen_leaves_kernel_thread in_tasks task_id (leaf_count, calls) =
     (leaf_count + 1,
      calls @ [write_node (m_node (in_tasks ! task_id)) False False leaf_count,
               write_leaf leaf_count (m_begin (in_tasks ! task_id))
                 (m_end (in_tasks ! task_id))]) \<and>
   (fst (split_plan max_leaf_size codes (in_tasks ! task_id)
           (split_level keep_singletons codes (in_tasks ! task_id))) = 0 \<longrightarrow>
      (out_leaf_count (split_kernel_thread max_leaf_size keep_singletons codes in_tasks
                         out_nodes_count task_id s),
       tree (split_kernel_thread max_leaf_size keep_singletons codes in_tasks
                         out_nodes_count task_id s))
        = gen_leaves_kernel_thread in_tasks task_id (out_leaf_count s, tree s) \<and>
      out_tasks_count (split_kernel_thread max_leaf_size keep_singletons codes in_tasks
                         out_nodes_count task_id s) = out_tasks_count s \<and>
      out_tasks (split_kernel_thread max_leaf_size keep_singletons codes in_tasks
                         out_nodes_count task_id s) = out_tasks s)"
proof -
  have "(out_leaf_count (split_kernel_thread max_leaf_size keep_singletons codes in_tasks
                         out_nodes_count task_id s),
       tree (split_kernel_thread max_leaf_size keep_singletons codes in_tasks
                         out_nodes_count task_id s))
        = gen_leaves_kernel_thread in_tasks task_id (out_leaf_count s, tree s) \<and>
      out_tasks_count (split_kernel_thread max_leaf_size keep_singletons codes in_tasks
                         out_nodes_count task_id s) = out_tasks_count s \<and>
      out_tasks (split_kernel_thread max_leaf_size keep_singletons codes in_tasks
                         out_nodes_count task_id s) = out_tasks s"
    if "fst (split_plan max_leaf_size codes (in_tasks ! task_id)
           (split_level keep_singletons codes (in_tasks ! task_id))) = 0"
  proof -
    from that
    have "m_end (in_tasks ! task_id) - m_begin (in_tasks ! task_id) \<le> max_leaf_size"
      by (simp add: split_plan_count_zero_iff)
    from thread_leaf [OF this] show ?thesis
      by (simp add: gen_leaves_kernel_thread_eq)
  qed
  then show ?thesis
    by (simp add: gen_leaves_kernel_thread_eq)
qed

theorem gen_leaves_thread_as_split_leaf_witness:
  "fst (split_plan 4 [7, 7, 7] \<lparr>m_node = 3, m_begin = 0, m_end = 3, m_input = 1\<rparr>
         (split_level True [7, 7, 7] \<lparr>m_node = 3, m_begin = 0, m_end = 3, m_input = 1\<rparr>)) = 0 \<and>
   (out_leaf_count
      (split_kernel_thread 4 True [7, 7, 7]
         [\<lparr>m_node = 3, m_begin = 0, m_end = 3, m_input = 1\<rparr>] 9 0
         \<lparr>out_tasks_count = 0, out_tasks = [], out_leaf_count = 2, tree = []\<rparr>),
    tree
      (split_kernel_thread 4 True [7, 7, 7]
         [\<lparr>m_node = 3, m_begin = 0, m_end = 3, m_input = 1\<rparr>] 9 0
         \<lparr>out_tasks_count = 0, out_tasks = [], out_leaf_count = 2, tree = []\<rparr>))
     = (3, [write_node 3 False False 2, write_leaf 2 0 3])"
proof -
  let ?t = "\<lparr>m_node = 3, m_begin = 0, m_end = 3, m_input = 1 :: 32 word\<rparr>"
  let ?s = "\<lparr>out_tasks_count = 0, out_tasks = [], out_leaf_count = 2, tree = []\<rparr>"
  note inst = gen_leaves_thread_as_split_leaf
          [where in_tasks = "[?t]" and task_id = 0 and leaf_count = 2 and calls = "[]"
             and max_leaf_size = 4 and codes = "[7, 7, 7]" and keep_singletons = True
             and out_nodes_count = 9 and s = ?s]
  have zero: "fst (split_plan 4 [7, 7, 7] ?t (split_level True [7, 7, 7] ?t)) = 0"
    by (simp add: split_plan_def Let_def)
  from inst have leaves: "gen_leaves_kernel_thread [?t] 0 (2, [])
                            = (3, [write_node 3 False False 2, write_leaf 2 0 3])"
    by simp
  from inst zero
  have "(out_leaf_count (split_kernel_thread 4 True [7, 7, 7] [?t] 9 0 ?s),
         tree (split_kernel_thread 4 True [7, 7, 7] [?t] 9 0 ?s))
          = gen_leaves_kernel_thread [?t] 0 (out_leaf_count ?s, tree ?s)"
    by simp
  with leaves zero show ?thesis
    by simp
qed

subsection \<open>The leaves of the two kernels\<close>

lemma split_kernel_thread_tree:
  "\<exists>calls. tree (split_kernel_thread max_leaf_size keep_singletons codes in_tasks
                    out_nodes_count task_id s) = tree s @ calls \<and>
           (\<forall>r\<in>set (leaf_ranges calls). snd r - fst r \<le> max_leaf_size)"
proof (cases "m_end (in_tasks ! task_id) - m_begin (in_tasks ! task_id) \<le> max_leaf_size")
  case True
  from thread_leaf [OF True] True show ?thesis
    by simp
next
  case large: False
  let ?split = "split_pivot codes (m_begin (in_tasks ! task_id)) (m_end (in_tasks ! task_id))
                  (split_level keep_singletons codes (in_tasks ! task_id))"
  show ?thesis
  proof (cases "?split = m_begin (in_tasks ! task_id) \<or> ?split = m_end (in_tasks ! task_id)")
    case True
    from thread_one [OF large True] show ?thesis
      by simp
  next
    case False
    from thread_two [OF large False] show ?thesis
      by simp
  qed
qed

lemma split_kernel_fold_tree:
  "\<exists>calls. tree (fold (split_kernel_thread max_leaf_size keep_singletons codes in_tasks
                          out_nodes_count) ids s) = tree s @ calls \<and>
           (\<forall>r\<in>set (leaf_ranges calls). snd r - fst r \<le> max_leaf_size)"
proof (induction ids arbitrary: s)
  case Nil
  show ?case
    by simp
next
  case (Cons i ids)
  let ?thread = "split_kernel_thread max_leaf_size keep_singletons codes in_tasks out_nodes_count"
  from split_kernel_thread_tree [of max_leaf_size keep_singletons codes in_tasks out_nodes_count i s]
  obtain calls1 where c1: "tree (?thread i s) = tree s @ calls1"
    "\<forall>r\<in>set (leaf_ranges calls1). snd r - fst r \<le> max_leaf_size"
    by blast
  from Cons.IH [of "?thread i s"]
  obtain calls2 where c2: "tree (fold ?thread ids (?thread i s)) = tree (?thread i s) @ calls2"
    "\<forall>r\<in>set (leaf_ranges calls2). snd r - fst r \<le> max_leaf_size"
    by blast
  from c1 c2 have "tree (fold ?thread (i # ids) s) = tree s @ (calls1 @ calls2)"
    by simp
  moreover from c1 c2 have "\<forall>r\<in>set (leaf_ranges (calls1 @ calls2)). snd r - fst r \<le> max_leaf_size"
    by auto
  ultimately show ?case
    by blast
qed

lemma gen_leaves_fold:
  "\<exists>calls. fold (gen_leaves_kernel_thread in_tasks) ids s
             = (fst s + of_nat (length ids), snd s @ calls) \<and>
           leaf_ranges calls = map (\<lambda>i. task_range (in_tasks ! i)) ids"
proof (induction ids arbitrary: s)
  case Nil
  show ?case
    by (intro exI [of _ "[]"]) simp
next
  case (Cons i ids)
  obtain leaf_count calls0 where s: "s = (leaf_count, calls0)"
    by (cases s)
  let ?new = "[write_node (m_node (in_tasks ! i)) False False leaf_count,
               write_leaf leaf_count (m_begin (in_tasks ! i)) (m_end (in_tasks ! i))]"
  from Cons.IH [of "(leaf_count + 1, calls0 @ ?new)"]
  obtain calls where "fold (gen_leaves_kernel_thread in_tasks) ids (leaf_count + 1, calls0 @ ?new)
                        = (leaf_count + 1 + of_nat (length ids), (calls0 @ ?new) @ calls)"
    and "leaf_ranges calls = map (\<lambda>i. task_range (in_tasks ! i)) ids"
    by auto
  then have "fold (gen_leaves_kernel_thread in_tasks) (i # ids) s
               = (fst s + of_nat (length (i # ids)), snd s @ (?new @ calls)) \<and>
             leaf_ranges (?new @ calls) = map (\<lambda>i. task_range (in_tasks ! i)) (i # ids)"
    by (simp add: s gen_leaves_kernel_thread_eq task_range_def)
  then show ?case
    by blast
qed

subsection \<open>One pass of the loop of the generator\<close>

lemma map_nth_upt_take:
  "k \<le> length xs \<Longrightarrow> map (\<lambda>i. f (xs ! i)) [0..<k] = map f (take k xs)"
  by (rule nth_equalityI) simp_all

lemma generate_loop_body_inv:
  assumes inv: "gen_inv n tree0 st" and n: "n < 2 ^ 32"
  shows "gen_inv n tree0 (generate_loop_body max_leaf_size keep_singletons codes st) \<and>
         (\<forall>c\<in>set (pending (generate_loop_body max_leaf_size keep_singletons codes st)).
            \<exists>p\<in>set (pending st).
              m_input c = split_level keep_singletons codes p - 1 \<and>
              unat (m_begin p) \<le> unat (m_begin c) \<and> unat (m_end c) \<le> unat (m_end p))"
proof -
  let ?ctx = "gen_context st"
  let ?iq = "in_queue st" and ?oq = "out_queue st"
  let ?cnt = "m_counters ?ctx"
  let ?q = "m_task_queues ?ctx"
  let ?k = "?cnt ! ?iq"
  let ?tree1 = "gen_tree st @ [reserve_nodes (n_nodes st + ?k * 2)]"
  let ?s0 = "\<lparr>out_tasks_count = 0, out_tasks = ?q ?oq, out_leaf_count = ?cnt ! 2, tree = ?tree1\<rparr>"
  let ?s' = "fold (split_kernel_thread max_leaf_size keep_singletons codes (?q ?iq) (n_nodes st))
               [0..<unat ?k] ?s0"
  let ?st' = "generate_loop_body max_leaf_size keep_singletons codes st"
  from inv have iq: "?iq < 2" and oq: "?oq = 1 - ?iq" and len4: "length ?cnt = 4"
    and q0: "n \<le> length (?q 0)" and q1: "n \<le> length (?q 1)"
    and klen: "unat ?k \<le> length (?q ?iq)"
    and live: "\<forall>t\<in>set (pending st). live_task n t"
    by (simp_all add: gen_inv_def)
  from inv obtain calls0 where tree: "gen_tree st = tree0 @ calls0"
    and part: "mset (indices (map task_range (pending st))) + mset (indices (leaf_ranges calls0))
                 = mset [0..<n]"
    and leaves0: "\<forall>r\<in>set (leaf_ranges calls0). unat (fst r) < unat (snd r) \<and> unat (snd r) \<le> n"
    unfolding gen_inv_def by blast
  from iq oq have neq: "?iq \<noteq> ?oq" and oq2: "?oq < 2" and iq_oq: "?iq = 1 - ?oq"
    by (auto simp add: less_2_cases_iff)
  have pend: "pending st = take (unat ?k) (?q ?iq)"
    by (simp add: pending_def)
  have body: "?st' = \<lparr>gen_context = ?ctx\<lparr>m_task_queues := ?q(?oq := out_tasks ?s'),
                                         m_counters := ?cnt[?oq := out_tasks_count ?s',
                                                            2 := out_leaf_count ?s']\<rparr>,
                       in_queue = ?oq, out_queue = ?iq,
                       n_nodes = n_nodes st + out_tasks_count ?s',
                       gen_level = gen_level st - 1, gen_tree = tree ?s'\<rparr>"
    using neq oq2 iq len4
    by (simp add: generate_loop_body_def Let_def split_def split_kernel_def)
  have live_ids: "\<forall>i\<in>set [0..<unat ?k]. live_task n (?q ?iq ! i)"
  proof
    fix i assume "i \<in> set [0..<unat ?k]"
    then have "i < unat ?k" by simp
    with klen have "?q ?iq ! i \<in> set (pending st)"
      unfolding pend by (metis in_set_conv_nth length_take min.absorb2 nth_take)
    with live show "live_task n (?q ?iq ! i)" by blast
  qed
  have ranges: "map (\<lambda>i. task_range (?q ?iq ! i)) [0..<unat ?k] = map task_range (pending st)"
    unfolding pend using klen by (rule map_nth_upt_take)
  from part have "size (mset (indices (map task_range (pending st)))) \<le> size (mset [0..<n])"
    by (metis size_union le_add1)
  then have room: "unat (out_tasks_count ?s0)
                     + length (indices (map (\<lambda>i. task_range (?q ?iq ! i)) [0..<unat ?k])) \<le> n"
    by (simp add: ranges)
  have cap: "n \<le> length (out_tasks ?s0)"
    using q0 q1 oq2 by (cases "?oq = 0") (simp_all add: less_2_cases_iff)
  from split_kernel_fold [OF refl live_ids room cap n]
  obtain cs calls where
    q: "take (unat (out_tasks_count ?s')) (out_tasks ?s') = take (unat (out_tasks_count ?s0)) (out_tasks ?s0) @ cs"
    and cnt: "unat (out_tasks_count ?s') = unat (out_tasks_count ?s0) + length cs"
    and len: "length (out_tasks ?s') = length (out_tasks ?s0)"
    and tr: "tree ?s' = tree ?s0 @ calls"
    and kids: "\<forall>c\<in>set cs. live_task n c \<and>
                (\<exists>i\<in>set [0..<unat ?k].
                   m_input c = split_level keep_singletons codes (?q ?iq ! i) - 1 \<and>
                   unat (m_begin (?q ?iq ! i)) \<le> unat (m_begin c) \<and>
                   unat (m_end c) \<le> unat (m_end (?q ?iq ! i)))"
    and ms: "mset (indices (map task_range cs)) + mset (indices (leaf_ranges calls))
               = mset (indices (map (\<lambda>i. task_range (?q ?iq ! i)) [0..<unat ?k]))"
    and lv: "\<forall>r\<in>set (leaf_ranges calls). unat (fst r) < unat (snd r) \<and> unat (snd r) \<le> n"
    by blast
  have pend': "pending ?st' = cs"
    using q oq2 len4 by (simp add: body pending_def)
  have cnt': "unat (out_tasks_count ?s') = length cs"
    using cnt by simp
  have "length (take (unat (out_tasks_count ?s')) (out_tasks ?s')) = length cs"
    using q by simp
  then have cs_len: "length cs \<le> length (out_tasks ?s')"
    unfolding cnt' by simp
  have 1: "in_queue ?st' < 2" "out_queue ?st' = 1 - in_queue ?st'"
    "length (m_counters (gen_context ?st')) = 4"
    using oq2 iq_oq len4 by (simp_all add: body)
  have 2: "n \<le> length (m_task_queues (gen_context ?st') 0)"
    "n \<le> length (m_task_queues (gen_context ?st') 1)"
    using q0 q1 len by (auto simp add: body)
  have 3: "unat (m_counters (gen_context ?st') ! in_queue ?st')
             \<le> length (m_task_queues (gen_context ?st') (in_queue ?st'))"
    using cs_len cnt' oq2 len4 by (simp add: body)
  have 4: "\<forall>t\<in>set (pending ?st'). live_task n t"
    using kids by (simp add: pend')
  have 5: "gen_tree ?st' = tree0 @ (calls0 @ [reserve_nodes (n_nodes st + ?k * 2)] @ calls)"
    using tr tree by (simp add: body)
  have 6: "mset (indices (map task_range (pending ?st')))
             + mset (indices (leaf_ranges (calls0 @ [reserve_nodes (n_nodes st + ?k * 2)] @ calls)))
             = mset [0..<n]"
    using ms part by (simp add: pend' ranges ac_simps)
  have 7: "\<forall>r\<in>set (leaf_ranges (calls0 @ [reserve_nodes (n_nodes st + ?k * 2)] @ calls)).
             unat (fst r) < unat (snd r) \<and> unat (snd r) \<le> n"
    using leaves0 lv by auto
  have inv': "gen_inv n tree0 ?st'"
    unfolding gen_inv_def using 1 2 3 4 5 6 7 by blast
  have parents: "\<forall>c\<in>set (pending ?st'). \<exists>p\<in>set (pending st).
              m_input c = split_level keep_singletons codes p - 1 \<and>
              unat (m_begin p) \<le> unat (m_begin c) \<and> unat (m_end c) \<le> unat (m_end p)"
  proof
    fix c assume "c \<in> set (pending ?st')"
    with pend' kids obtain i where i: "i < unat ?k"
      and c: "m_input c = split_level keep_singletons codes (?q ?iq ! i) - 1"
        "unat (m_begin (?q ?iq ! i)) \<le> unat (m_begin c)"
        "unat (m_end c) \<le> unat (m_end (?q ?iq ! i))"
      by auto
    from i klen have "?q ?iq ! i \<in> set (pending st)"
      unfolding pend by (metis in_set_conv_nth length_take min.absorb2 nth_take)
    with c show "\<exists>p\<in>set (pending st).
              m_input c = split_level keep_singletons codes p - 1 \<and>
              unat (m_begin p) \<le> unat (m_begin c) \<and> unat (m_end c) \<le> unat (m_end p)"
      by blast
  qed
  from inv' parents show ?thesis
    by blast
qed

subsection \<open>The whole build\<close>

lemma length_resize_if_needed: "unat n \<le> length (resize_if_needed vec n)"
  by (simp add: resize_if_needed_def)

lemma length_resize_counters: "length (resize_counters counters) = 4"
  by (simp add: resize_counters_def)

lemma generate_init_inv:
  assumes "0 < unat n_codes"
  shows "gen_inv (unat n_codes) tree0 (generate_init context n_codes bits max_leaf_size tree0)"
proof -
  let ?st = "generate_init context n_codes bits max_leaf_size tree0"
  let ?seed = "\<lparr>m_node = 0, m_begin = 0, m_end = n_codes, m_input = bits - 1\<rparr>"
  let ?q0 = "resize_if_needed (m_task_queues context 0) n_codes"
  let ?calls = "[reserve_nodes ((n_codes div max_leaf_size) * 2), reserve_leaves n_codes]"
  have q0: "m_task_queues (gen_context ?st) 0 = ?q0[0 := ?seed]"
    and q1: "m_task_queues (gen_context ?st) 1 = resize_if_needed (m_task_queues context 1) n_codes"
    and iq: "in_queue ?st = 0" and oq: "out_queue ?st = 1"
    and cnt: "m_counters (gen_context ?st) = (resize_counters (m_counters context))[0 := 1, 1 := 0, 2 := 0]"
    and tr: "gen_tree ?st = tree0 @ ?calls"
    by (simp_all add: generate_init_def Let_def)
  from assms length_resize_if_needed [of n_codes "m_task_queues context 0"]
  have pos: "0 < length ?q0"
    by linarith
  have c0: "m_counters (gen_context ?st) ! 0 = 1"
    by (simp add: cnt length_resize_counters)
  from pos have pend: "pending ?st = [?seed]"
    by (simp add: pending_def iq c0 q0 take_Suc_conv_app_nth)
  have "live_task (unat n_codes) ?seed"
    using assms by (simp add: live_task_def)
  moreover have "mset (indices (map task_range (pending ?st))) + mset (indices (leaf_ranges ?calls))
                   = mset [0..<unat n_codes]"
    by (simp add: pend task_range_def range_indices_def)
  moreover have "length (m_counters (gen_context ?st)) = 4"
    by (simp add: cnt length_resize_counters)
  moreover have "unat n_codes \<le> length (m_task_queues (gen_context ?st) 0)"
    by (simp add: q0 length_resize_if_needed)
  moreover have "unat n_codes \<le> length (m_task_queues (gen_context ?st) 1)"
    unfolding q1 by (rule length_resize_if_needed)
  moreover from pos have "Suc 0 \<le> length ?q0"
    by linarith
  then have "unat (m_counters (gen_context ?st) ! in_queue ?st)
               \<le> length (m_task_queues (gen_context ?st) (in_queue ?st))"
    by (simp add: iq c0 q0)
  ultimately show ?thesis
    unfolding gen_inv_def using iq oq tr pend
    by (intro conjI exI [of _ ?calls]) simp_all
qed

lemma generate_loop_inv:
  assumes "gen_inv n tree0 st" and "n < 2 ^ 32"
  shows "gen_inv n tree0 (generate_loop max_leaf_size keep_singletons codes st)"
  using assms
proof (induction max_leaf_size keep_singletons codes st rule: generate_loop.induct)
  case (1 max_leaf_size keep_singletons codes st)
  show ?case
  proof (cases "generate_loop_cond st")
    case True
    from generate_loop_body_inv [OF "1.prems"]
    have "gen_inv n tree0 (generate_loop_body max_leaf_size keep_singletons codes st)"
      by blast
    from "1.IH" [OF True this "1.prems"(2)] True show ?thesis
      by (subst generate_loop.simps) simp
  next
    case False
    with "1.prems" show ?thesis
      by (subst generate_loop.simps) simp
  qed
qed

lemma count_range_indices:
  "count (mset (range_indices r)) i = (if unat (fst r) \<le> i \<and> i < unat (snd r) then 1 else 0)"
  by (simp add: range_indices_def)

lemma count_indices:
  "count (mset (indices rs)) i = length (filter (\<lambda>r. unat (fst r) \<le> i \<and> i < unat (snd r)) rs)"
  by (induction rs) (simp_all add: count_range_indices)

lemma gen_leaves_eq:
  "\<exists>fin. gen_leaves in_tasks_count in_tasks (leaf_count, calls)
            = (leaf_count + of_nat (unat in_tasks_count), calls @ fin) \<and>
         leaf_ranges fin = map (\<lambda>i. task_range (in_tasks ! i)) [0..<unat in_tasks_count]"
  using gen_leaves_fold [of in_tasks "[0..<unat in_tasks_count]" "(leaf_count, calls)"]
  by (simp add: gen_leaves_def gen_leaves_kernel_def)

subsection \<open>Leaf slots\<close>

lemma leaf_slots_append [simp]:
  "leaf_slots (calls @ calls') = leaf_slots calls @ leaf_slots calls'"
  by (induction calls rule: leaf_slots.induct) simp_all

lemma length_leaf_slots: "length (leaf_slots calls) = length (leaf_ranges calls)"
  by (induction calls rule: leaf_slots.induct) simp_all

lemma slots_from_append:
  assumes "slots_from c calls" and "slots_from (c + of_nat (length (leaf_slots calls))) calls'"
  shows "slots_from c (calls @ calls')"
proof -
  let ?a = "length (leaf_slots calls)" and ?b = "length (leaf_slots calls')"
  have "[0..<?a + ?b] = [0..<?a] @ map (\<lambda>k. ?a + k) [0..<?b]"
    using upt_add_eq_append [of 0 ?a ?b] map_add_upt [of ?a ?b] by (simp add: add.commute)
  then have "map (\<lambda>k. c + of_nat k) [0..<?a + ?b]
               = map (\<lambda>k. c + of_nat k) [0..<?a]
                 @ map (\<lambda>k. c + of_nat ?a + of_nat k) [0..<?b]"
    by (simp add: comp_def add.assoc)
  with assms show ?thesis
    unfolding slots_from_def by simp
qed

lemma split_kernel_thread_slots:
  "\<exists>calls. tree (split_kernel_thread max_leaf_size keep_singletons codes in_tasks
                    out_nodes_count task_id s) = tree s @ calls \<and>
           out_leaf_count (split_kernel_thread max_leaf_size keep_singletons codes in_tasks
                    out_nodes_count task_id s)
             = out_leaf_count s + of_nat (length (leaf_slots calls)) \<and>
           slots_from (out_leaf_count s) calls"
proof (cases "m_end (in_tasks ! task_id) - m_begin (in_tasks ! task_id) \<le> max_leaf_size")
  case True
  from thread_leaf [OF True] show ?thesis
    by (simp add: slots_from_def)
next
  case large: False
  let ?split = "split_pivot codes (m_begin (in_tasks ! task_id)) (m_end (in_tasks ! task_id))
                  (split_level keep_singletons codes (in_tasks ! task_id))"
  show ?thesis
  proof (cases "?split = m_begin (in_tasks ! task_id) \<or> ?split = m_end (in_tasks ! task_id)")
    case True
    from thread_one [OF large True] show ?thesis
      by (simp add: slots_from_def)
  next
    case False
    from thread_two [OF large False] show ?thesis
      by (simp add: slots_from_def)
  qed
qed

lemma split_kernel_fold_slots:
  "\<exists>calls. tree (fold (split_kernel_thread max_leaf_size keep_singletons codes in_tasks
                          out_nodes_count) ids s) = tree s @ calls \<and>
           out_leaf_count (fold (split_kernel_thread max_leaf_size keep_singletons codes in_tasks
                          out_nodes_count) ids s)
             = out_leaf_count s + of_nat (length (leaf_slots calls)) \<and>
           slots_from (out_leaf_count s) calls"
proof (induction ids arbitrary: s)
  case Nil
  show ?case
    by (simp add: slots_from_def)
next
  case (Cons i ids)
  let ?thread = "split_kernel_thread max_leaf_size keep_singletons codes in_tasks out_nodes_count"
  from split_kernel_thread_slots [of max_leaf_size keep_singletons codes in_tasks out_nodes_count i s]
  obtain calls1 where c1: "tree (?thread i s) = tree s @ calls1"
    "out_leaf_count (?thread i s) = out_leaf_count s + of_nat (length (leaf_slots calls1))"
    "slots_from (out_leaf_count s) calls1"
    by blast
  from Cons.IH [of "?thread i s"]
  obtain calls2 where c2: "tree (fold ?thread ids (?thread i s)) = tree (?thread i s) @ calls2"
    "out_leaf_count (fold ?thread ids (?thread i s))
       = out_leaf_count (?thread i s) + of_nat (length (leaf_slots calls2))"
    "slots_from (out_leaf_count (?thread i s)) calls2"
    by blast
  from c1 c2 have "tree (fold ?thread (i # ids) s) = tree s @ (calls1 @ calls2)"
    by simp
  moreover from c1 c2 have "out_leaf_count (fold ?thread (i # ids) s)
                              = out_leaf_count s + of_nat (length (leaf_slots (calls1 @ calls2)))"
    by simp
  moreover from c1 c2 have "slots_from (out_leaf_count s) (calls1 @ calls2)"
    by (intro slots_from_append) simp_all
  ultimately show ?case
    by blast
qed

lemma gen_leaves_fold_slots:
  "\<exists>calls. fold (gen_leaves_kernel_thread in_tasks) ids s
             = (fst s + of_nat (length (leaf_slots calls)), snd s @ calls) \<and>
           slots_from (fst s) calls"
proof (induction ids arbitrary: s)
  case Nil
  show ?case
    by (intro exI [of _ "[]"]) (simp add: slots_from_def)
next
  case (Cons i ids)
  obtain leaf_count calls0 where s: "s = (leaf_count, calls0)"
    by (cases s)
  let ?new = "[write_node (m_node (in_tasks ! i)) False False leaf_count,
               write_leaf leaf_count (m_begin (in_tasks ! i)) (m_end (in_tasks ! i))]"
  from Cons.IH [of "(leaf_count + 1, calls0 @ ?new)"]
  obtain calls where run: "fold (gen_leaves_kernel_thread in_tasks) ids (leaf_count + 1, calls0 @ ?new)
                        = (leaf_count + 1 + of_nat (length (leaf_slots calls)), (calls0 @ ?new) @ calls)"
    and rest: "slots_from (leaf_count + 1) calls"
    by auto
  have "slots_from leaf_count ?new"
    by (simp add: slots_from_def)
  with rest have "slots_from leaf_count (?new @ calls)"
    by (intro slots_from_append) simp_all
  moreover from run have "fold (gen_leaves_kernel_thread in_tasks) (i # ids) s
               = (fst s + of_nat (length (leaf_slots (?new @ calls))), snd s @ (?new @ calls))"
    by (simp add: s gen_leaves_kernel_thread_eq)
  ultimately show ?case
    unfolding s by (intro exI [of _ "?new @ calls"]) simp
qed

lemma slots_from_reserve_nodes [simp]:
  "slots_from c (reserve_nodes n # calls) = slots_from c calls"
  by (simp add: slots_from_def)

lemma generate_init_slots:
  "slots_inv tree0 (generate_init context n_codes bits max_leaf_size tree0)"
proof -
  let ?st = "generate_init context n_codes bits max_leaf_size tree0"
  let ?calls = "[reserve_nodes ((n_codes div max_leaf_size) * 2), reserve_leaves n_codes]"
  have "gen_tree ?st = tree0 @ ?calls"
    and "m_counters (gen_context ?st) ! 2 = 0"
    by (simp_all add: generate_init_def Let_def length_resize_counters)
  then show ?thesis
    unfolding slots_inv_def by (intro exI [of _ ?calls]) (simp add: slots_from_def)
qed

lemma generate_loop_body_slots:
  assumes inv: "gen_inv n tree0 st" and slots: "slots_inv tree0 st"
  shows "slots_inv tree0 (generate_loop_body max_leaf_size keep_singletons codes st)"
proof -
  let ?ctx = "gen_context st"
  let ?iq = "in_queue st" and ?oq = "out_queue st"
  let ?cnt = "m_counters ?ctx"
  let ?q = "m_task_queues ?ctx"
  let ?k = "?cnt ! ?iq"
  let ?reserve = "reserve_nodes (n_nodes st + ?k * 2)"
  let ?start = "\<lparr>out_tasks_count = 0, out_tasks = ?q ?oq, out_leaf_count = ?cnt ! 2,
                 tree = gen_tree st @ [?reserve]\<rparr>"
  let ?s' = "fold (split_kernel_thread max_leaf_size keep_singletons codes (?q ?iq) (n_nodes st))
               [0..<unat ?k] ?start"
  let ?st' = "generate_loop_body max_leaf_size keep_singletons codes st"
  from inv have iq: "?iq < 2" and oq: "?oq = 1 - ?iq" and len4: "length ?cnt = 4"
    by (simp_all add: gen_inv_def)
  from iq oq have neq: "?iq \<noteq> ?oq" and oq2: "?oq < 2"
    by (auto simp add: less_2_cases_iff)
  have tree': "gen_tree ?st' = tree ?s'" and count': "m_counters (gen_context ?st') ! 2 = out_leaf_count ?s'"
    using neq oq2 iq len4
    by (simp_all add: generate_loop_body_def Let_def split_def split_kernel_def)
  from slots obtain calls0 where t0: "gen_tree st = tree0 @ calls0"
    and c0: "?cnt ! 2 = of_nat (length (leaf_slots calls0))"
    and f0: "slots_from 0 calls0"
    unfolding slots_inv_def by blast
  from split_kernel_fold_slots [of max_leaf_size keep_singletons codes "?q ?iq" "n_nodes st"
         "[0..<unat ?k]" ?start]
  obtain calls where t1: "tree ?s' = (gen_tree st @ [?reserve]) @ calls"
    and c1: "out_leaf_count ?s' = ?cnt ! 2 + of_nat (length (leaf_slots calls))"
    and f1: "slots_from (?cnt ! 2) calls"
    by auto
  have "gen_tree ?st' = tree0 @ (calls0 @ (?reserve # calls))"
    using tree' t0 t1 by simp
  moreover have "m_counters (gen_context ?st') ! 2
                   = of_nat (length (leaf_slots (calls0 @ (?reserve # calls))))"
    using count' c0 c1 by simp
  moreover have "slots_from 0 (calls0 @ (?reserve # calls))"
    using f0 f1 c0 by (intro slots_from_append) simp_all
  ultimately show ?thesis
    unfolding slots_inv_def by blast
qed

lemma generate_loop_slots:
  assumes "gen_inv n tree0 st" and "n < 2 ^ 32" and "slots_inv tree0 st"
  shows "slots_inv tree0 (generate_loop max_leaf_size keep_singletons codes st)"
  using assms
proof (induction max_leaf_size keep_singletons codes st rule: generate_loop.induct)
  case (1 max_leaf_size keep_singletons codes st)
  show ?case
  proof (cases "generate_loop_cond st")
    case True
    from generate_loop_body_inv [OF "1.prems"(1,2)]
    have "gen_inv n tree0 (generate_loop_body max_leaf_size keep_singletons codes st)"
      by blast
    from "1.IH" [OF True this "1.prems"(2) generate_loop_body_slots [OF "1.prems"(1,3)]] True
    show ?thesis
      by (subst generate_loop.simps) simp
  next
    case False
    with "1.prems" show ?thesis
      by (subst generate_loop.simps) simp
  qed
qed

lemma length_ranges_le_indices:
  "\<forall>r\<in>set rs. unat (fst r) < unat (snd r) \<Longrightarrow> length rs \<le> length (indices rs)"
proof (induction rs)
  case Nil
  show ?case by simp
next
  case (Cons r rs)
  then have "unat (fst r) < unat (snd r)"
    by simp
  then have "1 \<le> length (range_indices r)"
    by (simp add: range_indices_def)
  with Cons show ?case
    by simp
qed

lemma distinct_slots:
  assumes "m \<le> 2 ^ 32"
  shows "distinct (map (of_nat :: nat \<Rightarrow> 32 word) [0..<m])"
proof -
  have small: "unat (of_nat a :: 32 word) = a" if "a \<in> set [0..<m]" for a
  proof -
    from that have "a < m"
      by simp
    from this assms have "a < 2 ^ 32"
      by (rule less_le_trans)
    then have "a < 2 ^ LENGTH(32)"
      by simp
    then show ?thesis
      by (rule of_nat_inverse [OF refl])
  qed
  have inj: "inj_on (of_nat :: nat \<Rightarrow> 32 word) (set [0..<m])"
  proof (rule inj_onI)
    fix a b assume a: "a \<in> set [0..<m]" and b: "b \<in> set [0..<m]"
      and eq: "(of_nat a :: 32 word) = of_nat b"
    from eq have "unat (of_nat a :: 32 word) = unat (of_nat b :: 32 word)"
      by (rule arg_cong)
    then show "a = b"
      unfolding small [OF a] small [OF b] .
  qed
  show ?thesis
    by (rule iffD2 [OF distinct_map]) (rule conjI [OF distinct_upt inj])
qed

text \<open>
  Claim C1. For every build over a sorted key array of size \<open>n > 0\<close>, the leaf ranges
  written through \<open>write_leaf\<close> partition the index interval \<open>[0, n)\<close>: every index
  lies in the range of exactly one leaf, with no gap, no overlap and no duplication.
  \<open>generate\<close> returns, and the calls it adds to the tree carry leaf ranges whose indices
  are those below \<open>n\<close>, each once; no leaf range is empty or ends beyond \<open>n\<close>. Each call of
  \<open>write_leaf\<close> has a leaf slot of its own: the slots are 0, 1 and so on in the order of
  the calls, and \<open>m_leaves\<close> is their number. The maximal leaf size is not 0, as the
  division of line 286 asks.
\<close>

theorem generate_leaves_partition:
  assumes "0 < unat n_codes" and "length codes = unat n_codes" and "sorted codes"
    and "max_leaf_size \<noteq> 0"
  shows "\<exists>context' calls.
           generate context n_codes codes bits max_leaf_size keep_singletons tree0
             = Inr (context', tree0 @ calls) \<and>
           mset (indices (leaf_ranges calls)) = mset [0..<unat n_codes] \<and>
           (\<forall>i<unat n_codes.
              length (filter (\<lambda>r. unat (fst r) \<le> i \<and> i < unat (snd r)) (leaf_ranges calls)) = 1) \<and>
           (\<forall>r\<in>set (leaf_ranges calls).
              unat (fst r) < unat (snd r) \<and> unat (snd r) \<le> unat n_codes) \<and>
           leaf_slots calls = map of_nat [0..<length (leaf_ranges calls)] \<and>
           distinct (leaf_slots calls) \<and>
           m_leaves context' = of_nat (length (leaf_ranges calls))"
proof -
  let ?n = "unat n_codes"
  let ?st = "generate_loop max_leaf_size keep_singletons codes
               (generate_init context n_codes bits max_leaf_size tree0)"
  let ?cnt = "m_counters (gen_context ?st)"
  let ?k = "?cnt ! in_queue ?st"
  let ?q = "m_task_queues (gen_context ?st) (in_queue ?st)"
  have n: "?n < 2 ^ 32"
    using unsigned_less [of n_codes] by simp
  have inv: "gen_inv ?n tree0 ?st"
    by (intro generate_loop_inv generate_init_inv assms(1) n)
  have "slots_inv tree0 ?st"
    by (intro generate_loop_slots [OF _ n] generate_init_inv assms(1) generate_init_slots)
  then obtain calls0 where tree: "gen_tree ?st = tree0 @ calls0"
    and count0: "?cnt ! 2 = of_nat (length (leaf_slots calls0))"
    and slots0: "slots_from 0 calls0"
    unfolding slots_inv_def by blast
  from inv tree
  have part: "mset (indices (map task_range (pending ?st))) + mset (indices (leaf_ranges calls0))
                 = mset [0..<?n]"
    and leaves0: "\<forall>r\<in>set (leaf_ranges calls0). unat (fst r) < unat (snd r) \<and> unat (snd r) \<le> ?n"
    unfolding gen_inv_def by auto
  from inv have klen: "unat ?k \<le> length ?q" and live: "\<forall>t\<in>set (pending ?st). live_task ?n t"
    and len4: "length ?cnt = 4"
    by (simp_all add: gen_inv_def)
  have pend: "pending ?st = take (unat ?k) ?q"
    by (simp add: pending_def)
  obtain context' calls where run: "generate context n_codes codes bits max_leaf_size
                                      keep_singletons tree0 = Inr (context', tree0 @ calls)"
    and leaves: "leaf_ranges calls = leaf_ranges calls0 @ map task_range (pending ?st)"
    and slots: "slots_from 0 calls"
    and total: "m_leaves context' = of_nat (length (leaf_slots calls))"
  proof (cases "?k = 0")
    case True
    let ?ctx' = "gen_context ?st\<lparr>m_counters := ?cnt[2 := ?cnt ! 2], m_nodes := n_nodes ?st,
                                 m_leaves := ?cnt ! 2\<rparr>"
    from True have "pending ?st = []"
      by (simp add: pend)
    then have ranges: "leaf_ranges calls0 = leaf_ranges calls0 @ map task_range (pending ?st)"
      by simp
    from True tree assms(4) len4
    have run': "generate context n_codes codes bits max_leaf_size keep_singletons tree0
                  = Inr (?ctx', tree0 @ calls0)"
      by (simp add: generate_def Let_def)
    have "m_leaves ?ctx' = of_nat (length (leaf_slots calls0))"
      using count0 by simp
    with run' ranges slots0 show ?thesis
      by (rule that)
  next
    case False
    from gen_leaves_fold_slots [of ?q "[0..<unat ?k]" "(?cnt ! 2, gen_tree ?st)"]
    obtain fin where fin: "gen_leaves ?k ?q (?cnt ! 2, gen_tree ?st)
                             = (?cnt ! 2 + of_nat (length (leaf_slots fin)), gen_tree ?st @ fin)"
      and fslots: "slots_from (?cnt ! 2) fin"
      by (auto simp add: gen_leaves_def gen_leaves_kernel_def)
    let ?ctx' = "gen_context ?st\<lparr>m_counters := ?cnt[2 := ?cnt ! 2 + of_nat (length (leaf_slots fin))],
                                 m_nodes := n_nodes ?st,
                                 m_leaves := ?cnt ! 2 + of_nat (length (leaf_slots fin))\<rparr>"
    from gen_leaves_eq [of ?k ?q "?cnt ! 2" "gen_tree ?st"] fin
    have "leaf_ranges fin = map (\<lambda>i. task_range (?q ! i)) [0..<unat ?k]"
      by auto
    with klen have "leaf_ranges fin = map task_range (pending ?st)"
      by (simp add: pend map_nth_upt_take)
    then have ranges: "leaf_ranges (calls0 @ fin)
                         = leaf_ranges calls0 @ map task_range (pending ?st)"
      by simp
    from False fin tree assms(4) len4
    have run': "generate context n_codes codes bits max_leaf_size keep_singletons tree0
                  = Inr (?ctx', tree0 @ (calls0 @ fin))"
      by (simp add: generate_def Let_def)
    have all: "slots_from 0 (calls0 @ fin)"
      using slots0 fslots count0 by (intro slots_from_append) simp_all
    have "m_leaves ?ctx' = of_nat (length (leaf_slots (calls0 @ fin)))"
      using count0 by simp
    with run' ranges all show ?thesis
      by (rule that)
  qed
  from part leaves have m: "mset (indices (leaf_ranges calls)) = mset [0..<?n]"
    by (simp add: ac_simps)
  have one: "length (filter (\<lambda>r. unat (fst r) \<le> i \<and> i < unat (snd r)) (leaf_ranges calls)) = 1"
    if "i < ?n" for i
  proof -
    have "count (mset (indices (leaf_ranges calls))) i = count (mset [0..<?n]) i"
      by (simp only: m)
    with that show ?thesis
      by (simp add: count_indices)
  qed
  have within: "unat (fst r) < unat (snd r) \<and> unat (snd r) \<le> ?n"
    if "r \<in> set (leaf_ranges calls)" for r
  proof -
    from that leaves consider "r \<in> set (leaf_ranges calls0)"
      | t where "t \<in> set (pending ?st)" "r = task_range t"
      by auto
    then show ?thesis
    proof cases
      case 1
      with leaves0 show ?thesis by blast
    next
      case 2
      with live have "live_task ?n t" by blast
      with 2 show ?thesis
        by (simp add: live_task_def task_range_def)
    qed
  qed
  then have "length (leaf_ranges calls) \<le> length (indices (leaf_ranges calls))"
    by (intro length_ranges_le_indices) blast
  also have "\<dots> = size (mset (indices (leaf_ranges calls)))"
    by simp
  also have "\<dots> = ?n"
    unfolding m by simp
  finally have few: "length (leaf_ranges calls) \<le> 2 ^ 32"
    using n by simp
  from slots have order: "leaf_slots calls = map of_nat [0..<length (leaf_ranges calls)]"
    by (simp add: slots_from_def length_leaf_slots)
  with distinct_slots [OF few] have "distinct (leaf_slots calls)"
    by simp
  with run m one within order total show ?thesis
    unfolding length_leaf_slots by blast
qed

theorem generate_leaves_partition_witness:
  "0 < unat (2 :: 32 word) \<and> length [0, 1 :: 32 word] = unat (2 :: 32 word) \<and>
   sorted [0, 1 :: 32 word] \<and> (1 :: 32 word) \<noteq> 0 \<and>
   map_sum id snd (generate
     \<lparr>m_task_queues = (\<lambda>_. [\<lparr>m_node = 0, m_begin = 0, m_end = 0, m_input = 0\<rparr>,
                              \<lparr>m_node = 0, m_begin = 0, m_end = 0, m_input = 0\<rparr>]),
      m_counters = [0, 0, 0, 0], m_nodes = 0, m_leaves = 0\<rparr> 2 [0, 1] 1 1 False [])
     = Inr [reserve_nodes 4, reserve_leaves 2, reserve_nodes 3, write_node 0 True True 1,
            write_node 1 False False 0, write_leaf 0 0 1,
            write_node 2 False False 1, write_leaf 1 1 2] \<and>
   mset (indices [(0, 1), (1, 2)]) = mset [0..<2]"
proof -
  let ?ctx = "\<lparr>m_task_queues = (\<lambda>_. [\<lparr>m_node = 0, m_begin = 0, m_end = 0, m_input = 0\<rparr>,
                              \<lparr>m_node = 0, m_begin = 0, m_end = 0, m_input = 0\<rparr>]),
      m_counters = [0, 0, 0, 0], m_nodes = 0, m_leaves = 0\<rparr>"
  let ?calls = "[reserve_nodes 4, reserve_leaves 2, reserve_nodes 3, write_node 0 True True 1,
            write_node 1 False False 0, write_leaf 0 0 1,
            write_node 2 False False 1, write_leaf 1 1 2]"
  have hyps: "0 < unat (2 :: 32 word)" "length [0, 1 :: 32 word] = unat (2 :: 32 word)"
    "sorted [0, 1 :: 32 word]" "(1 :: 32 word) \<noteq> 0"
    by simp_all
  from generate_leaves_partition [OF hyps, of ?ctx 1 False "[]"]
  obtain context' calls where run: "generate ?ctx 2 [0, 1] 1 1 False [] = Inr (context', calls)"
    and part: "mset (indices (leaf_ranges calls)) = mset [0..<unat (2 :: 32 word)]"
    by auto
  have ev: "map_sum id snd (generate ?ctx 2 [0, 1] 1 1 False []) = Inr ?calls"
    by (simp add: generate_def generate_init_def generate_loop.simps generate_loop_cond_def
        generate_loop_body_def resize_if_needed_def resize_counters_def
        split_def split_kernel_def split_kernel_thread_def split_plan_def split_level_def
        split_pivot_def find_pivot_def find_pivot_loop.simps mask_and_def alloc_def alloc1_def
        find_leading_bit_difference.simps
        gen_leaves_def gen_leaves_kernel_def gen_leaves_kernel_thread_def Let_def
        upt_conv_Cons)
  with run have "calls = ?calls"
    by simp
  with part have "mset (indices [(0, 1), (1, 2)]) = mset [0..<2]"
    by simp
  with hyps ev show ?thesis
    by blast
qed

subsection \<open>Leaf sizes in a build\<close>

lemma generate_loop_tree:
  "\<exists>calls. gen_tree (generate_loop max_leaf_size keep_singletons codes st) = gen_tree st @ calls \<and>
           (\<forall>r\<in>set (leaf_ranges calls). snd r - fst r \<le> max_leaf_size)"
proof (induction max_leaf_size keep_singletons codes st rule: generate_loop.induct)
  case (1 max_leaf_size keep_singletons codes st)
  show ?case
  proof (cases "generate_loop_cond st")
    case True
    let ?st' = "generate_loop_body max_leaf_size keep_singletons codes st"
    let ?reserve = "reserve_nodes (n_nodes st + m_counters (gen_context st) ! in_queue st * 2)"
    from split_kernel_fold_tree
    obtain calls1 where "gen_tree ?st' = (gen_tree st @ [?reserve]) @ calls1"
      and "\<forall>r\<in>set (leaf_ranges calls1). snd r - fst r \<le> max_leaf_size"
      unfolding generate_loop_body_def Let_def split_def split_kernel_def
      by (metis gen_state.select_convs(6) split_state.select_convs(4))
    moreover from "1.IH" [OF True]
    obtain calls2 where "gen_tree (generate_loop max_leaf_size keep_singletons codes ?st')
                           = gen_tree ?st' @ calls2"
      and "\<forall>r\<in>set (leaf_ranges calls2). snd r - fst r \<le> max_leaf_size"
      by blast
    ultimately
    have "gen_tree (generate_loop max_leaf_size keep_singletons codes ?st')
            = gen_tree st @ ([?reserve] @ calls1 @ calls2)"
      and "\<forall>r\<in>set (leaf_ranges ([?reserve] @ calls1 @ calls2)). snd r - fst r \<le> max_leaf_size"
      by auto
    with True show ?thesis
      by (subst generate_loop.simps) (simp only: if_True, blast)
  next
    case False
    then show ?thesis
      by (subst generate_loop.simps) simp
  qed
qed

text \<open>
  Claim C8. Every leaf that the split stage writes has \<open>end - begin <= max_leaf_size\<close>;
  only the leaves of the leaf kernel, which \<open>generate\<close> runs on the tasks left when the
  levels are used up, can be larger. For a run of the split kernel: its calls come
  after the calls made before it, and the ranges of its \<open>write_leaf\<close> calls have a
  \<open>uint32\<close> difference \<open>end - begin\<close> of at most \<open>max_leaf_size\<close>. For a build: the calls
  of \<open>generate\<close> are the calls up to the end of the loop, whose leaves are within
  \<open>max_leaf_size\<close>, followed by the calls of the leaf kernel, whose leaves are the ranges
  of the tasks left in the input queue, whatever their size.
\<close>

theorem split_stage_leaves_bounded:
  "take (length (tree s))
     (tree (split max_leaf_size keep_singletons codes in_tasks_count in_tasks out_nodes_count s))
     = tree s \<and>
   (\<forall>r\<in>set (leaf_ranges (drop (length (tree s))
        (tree (split max_leaf_size keep_singletons codes in_tasks_count in_tasks
                 out_nodes_count s)))).
      snd r - fst r \<le> max_leaf_size) \<and>
   (max_leaf_size \<noteq> 0 \<longrightarrow>
      (let st = generate_loop max_leaf_size keep_singletons codes
                  (generate_init ctx n_codes bits max_leaf_size tree0);
           k = m_counters (gen_context st) ! in_queue st;
           q = m_task_queues (gen_context st) (in_queue st)
       in \<exists>context' calls fin.
            generate ctx n_codes codes bits max_leaf_size keep_singletons tree0
              = Inr (context', tree0 @ calls @ fin) \<and>
            gen_tree st = tree0 @ calls \<and>
            (\<forall>r\<in>set (leaf_ranges calls). snd r - fst r \<le> max_leaf_size) \<and>
            (k = 0 \<longrightarrow> fin = []) \<and>
            (k \<noteq> 0 \<longrightarrow>
               snd (gen_leaves k q (m_counters (gen_context st) ! 2, gen_tree st))
                 = gen_tree st @ fin) \<and>
            leaf_ranges fin = map (\<lambda>i. task_range (q ! i)) [0..<unat k]))"
proof -
  from split_kernel_fold_tree [of max_leaf_size keep_singletons codes in_tasks out_nodes_count
         "[0..<unat in_tasks_count]" s]
  obtain new where "tree (split max_leaf_size keep_singletons codes in_tasks_count in_tasks
                            out_nodes_count s) = tree s @ new"
    and "\<forall>r\<in>set (leaf_ranges new). snd r - fst r \<le> max_leaf_size"
    unfolding split_def split_kernel_def by blast
  then have kernel: "take (length (tree s))
     (tree (split max_leaf_size keep_singletons codes in_tasks_count in_tasks out_nodes_count s))
     = tree s \<and>
   (\<forall>r\<in>set (leaf_ranges (drop (length (tree s))
        (tree (split max_leaf_size keep_singletons codes in_tasks_count in_tasks
                 out_nodes_count s)))).
      snd r - fst r \<le> max_leaf_size)"
    by simp
  let ?start = "generate_init ctx n_codes bits max_leaf_size tree0"
  let ?st = "generate_loop max_leaf_size keep_singletons codes ?start"
  let ?k = "m_counters (gen_context ?st) ! in_queue ?st"
  let ?q = "m_task_queues (gen_context ?st) (in_queue ?st)"
  let ?lc = "m_counters (gen_context ?st) ! 2"
  have build: "\<exists>context' calls fin.
            generate ctx n_codes codes bits max_leaf_size keep_singletons tree0
              = Inr (context', tree0 @ calls @ fin) \<and>
            gen_tree ?st = tree0 @ calls \<and>
            (\<forall>r\<in>set (leaf_ranges calls). snd r - fst r \<le> max_leaf_size) \<and>
            (?k = 0 \<longrightarrow> fin = []) \<and>
            (?k \<noteq> 0 \<longrightarrow> snd (gen_leaves ?k ?q (?lc, gen_tree ?st)) = gen_tree ?st @ fin) \<and>
            leaf_ranges fin = map (\<lambda>i. task_range (?q ! i)) [0..<unat ?k]"
    if nz: "max_leaf_size \<noteq> 0"
  proof -
    let ?init = "[reserve_nodes ((n_codes div max_leaf_size) * 2), reserve_leaves n_codes]"
    have "gen_tree ?start = tree0 @ ?init"
      by (simp add: generate_init_def Let_def)
    with generate_loop_tree [of max_leaf_size keep_singletons codes ?start]
    obtain calls1 where t: "gen_tree ?st = tree0 @ (?init @ calls1)"
      and b: "\<forall>r\<in>set (leaf_ranges (?init @ calls1)). snd r - fst r \<le> max_leaf_size"
      by auto
    show ?thesis
    proof (cases "?k = 0")
      case True
      with nz t have "generate ctx n_codes codes bits max_leaf_size keep_singletons tree0
                        = Inr (gen_context ?st\<lparr>m_counters := (m_counters (gen_context ?st))[2 := ?lc],
                                 m_nodes := n_nodes ?st,
                                 m_leaves := (m_counters (gen_context ?st))[2 := ?lc] ! 2\<rparr>,
                               tree0 @ (?init @ calls1) @ [])"
        by (simp add: generate_def Let_def)
      with True t b show ?thesis
        by (intro exI conjI) (assumption | simp)+
    next
      case False
      from gen_leaves_eq [of ?k ?q ?lc "gen_tree ?st"]
      obtain fin where fin: "gen_leaves ?k ?q (?lc, gen_tree ?st)
                               = (?lc + of_nat (unat ?k), gen_tree ?st @ fin)"
        and lf: "leaf_ranges fin = map (\<lambda>i. task_range (?q ! i)) [0..<unat ?k]"
        by blast
      with nz False t
      have "generate ctx n_codes codes bits max_leaf_size keep_singletons tree0
              = Inr (gen_context ?st\<lparr>m_counters := (m_counters (gen_context ?st))
                                                     [2 := ?lc + of_nat (unat ?k)],
                       m_nodes := n_nodes ?st,
                       m_leaves := (m_counters (gen_context ?st))
                                     [2 := ?lc + of_nat (unat ?k)] ! 2\<rparr>,
                     tree0 @ (?init @ calls1) @ fin)"
        by (simp add: generate_def Let_def)
      moreover from fin have "snd (gen_leaves ?k ?q (?lc, gen_tree ?st)) = gen_tree ?st @ fin"
        by simp
      ultimately show ?thesis
        using False t b lf by (intro exI conjI) (assumption | simp)+
    qed
  qed
  from kernel build show ?thesis
    unfolding Let_def by blast
qed


theorem split_stage_leaves_bounded_witness:
  "leaf_ranges (tree (split 2 True [0, 0, 0] 1 [\<lparr>m_node = 0, m_begin = 0, m_end = 2, m_input = 1\<rparr>] 1
      \<lparr>out_tasks_count = 0, out_tasks = [], out_leaf_count = 0, tree = []\<rparr>)) = [(0, 2)] \<and>
   (2 :: 32 word) - 0 \<le> 2 \<and>
   (2 :: 32 word) \<noteq> 0 \<and>
   map_sum id snd (generate
     \<lparr>m_task_queues = (\<lambda>_. [\<lparr>m_node = 0, m_begin = 0, m_end = 0, m_input = 0\<rparr>,
                              \<lparr>m_node = 0, m_begin = 0, m_end = 0, m_input = 0\<rparr>,
                              \<lparr>m_node = 0, m_begin = 0, m_end = 0, m_input = 0\<rparr>]),
      m_counters = [0, 0, 0, 0], m_nodes = 0, m_leaves = 0\<rparr> 3 [0, 0, 0] 1 2 True [])
     = Inr ([reserve_nodes 2, reserve_leaves 3, reserve_nodes 3, write_node 0 True False 1]
            @ [write_node 1 False False 0, write_leaf 0 0 3]) \<and>
   leaf_ranges [reserve_nodes 2, reserve_leaves 3, reserve_nodes 3, write_node 0 True False 1] = [] \<and>
   leaf_ranges [write_node 1 False False 0, write_leaf 0 0 3] = [(0, 3)] \<and>
   \<not> (3 :: 32 word) - 0 \<le> 2"
proof -
  let ?t = "\<lparr>m_node = 0, m_begin = 0, m_end = 2, m_input = 1 :: 32 word\<rparr>"
  let ?s = "\<lparr>out_tasks_count = 0, out_tasks = [], out_leaf_count = 0, tree = []\<rparr>"
  let ?z = "\<lparr>m_node = 0, m_begin = 0, m_end = 0, m_input = 0 :: 32 word\<rparr>"
  let ?ctx = "\<lparr>m_task_queues = (\<lambda>_. [?z, ?z, ?z]), m_counters = [0, 0, 0, 0],
               m_nodes = 0, m_leaves = 0\<rparr>"
  note inst = split_stage_leaves_bounded
    [where s = ?s and max_leaf_size = 2 and keep_singletons = True and codes = "[0, 0, 0]"
       and in_tasks_count = 1 and in_tasks = "[?t]" and out_nodes_count = 1
       and ctx = ?ctx and n_codes = 3 and bits = 1]
  have run: "tree (split 2 True [0, 0, 0] 1 [?t] 1 ?s)
               = [write_node 0 False False 0, write_leaf 0 0 2]"
    by (simp add: split_def split_kernel_def thread_leaf)
  from inst run have small: "(2 :: 32 word) - 0 \<le> 2"
    by simp
  have build: "map_sum id snd (generate ?ctx 3 [0, 0, 0] 1 2 True [])
     = Inr ([reserve_nodes 2, reserve_leaves 3, reserve_nodes 3, write_node 0 True False 1]
            @ [write_node 1 False False 0, write_leaf 0 0 3])"
    by (simp add: generate_def generate_init_def generate_loop.simps generate_loop_cond_def
        generate_loop_body_def resize_if_needed_def resize_counters_def
        split_def split_kernel_def split_kernel_thread_def split_plan_def split_level_def
        split_pivot_def find_pivot_def find_pivot_loop.simps mask_and_def alloc_def alloc1_def
        gen_leaves_def gen_leaves_kernel_def gen_leaves_kernel_thread_def Let_def
        upt_conv_Cons)
  from run small build show ?thesis
    by simp
qed

subsection \<open>Levels of the tasks\<close>

lemma sint_small:
  assumes "unat (w :: 32 word) < 2 ^ 31"
  shows "sint w = int (unat w)"
proof -
  from assms have "int (unat w) < int (2 ^ 31)"
    by (simp only: of_nat_less_iff)
  then have "uint w < 2 ^ 31"
    by simp
  moreover have "- (2 ^ 31) \<le> uint w"
    by (rule order_trans [of _ 0]) simp_all
  ultimately have "signed_take_bit 31 (uint w) = uint w"
    by (intro signed_take_bit_int_eq_self)
  then show ?thesis
    by (simp add: sint_uint)
qed

lemma sint_top_level:
  assumes "unat (bits :: 32 word) \<le> 32"
  shows "- 1 \<le> sint (bits - 1) \<and> sint (bits - 1) \<le> 31"
proof (cases "bits = 0")
  case True
  then show ?thesis
    by simp
next
  case False
  then have "1 \<le> bits"
    by (simp add: word_le_nat_alt unat_gt_0 Suc_le_eq)
  then have "unat (bits - 1) = unat bits - 1"
    by (simp add: unat_sub)
  with assms have small: "unat (bits - 1) \<le> 31"
    by simp
  then have "sint (bits - 1) = int (unat (bits - 1))"
    by (intro sint_small) simp
  with small show ?thesis
    by linarith
qed

lemma split_level_bounds:
  assumes "sint (m_input p) \<le> 31"
  shows "sint (split_level keep_singletons codes p) \<le> sint (m_input p) \<and>
         (0 \<le> sint (m_input p) \<longrightarrow> - 1 \<le> sint (split_level keep_singletons codes p)) \<and>
         (sint (m_input p) < 0 \<longrightarrow> split_level keep_singletons codes p = m_input p)"
proof (cases keep_singletons)
  case True
  then show ?thesis
    by (simp add: split_level_def Let_def)
next
  case False
  let ?c0 = "codes ! unat (m_begin p)" and ?c1 = "codes ! unat (m_end p - 1)"
  from False have l: "split_level keep_singletons codes p
                        = find_leading_bit_difference (m_input p) ?c0 ?c1"
    by (simp add: split_level_def Let_def)
  show ?thesis
  proof (cases "0 \<le> sint (m_input p)")
    case True
    from find_leading_bit_difference_scan [OF assms True, of ?c0 ?c1] True show ?thesis
      unfolding l by simp
  next
    case neg: False
    then have "find_leading_bit_difference (m_input p) ?c0 ?c1 = m_input p"
      by (intro find_leading_bit_difference_negative) simp
    with neg show ?thesis
      unfolding l by simp
  qed
qed

lemma child_level:
  assumes top: "sint (m_input p) \<le> g" "g \<le> 31" and low: "g - 32 \<le> sint (m_input p)"
    and g0: "0 \<le> g"
    and c: "m_input c = split_level keep_singletons codes p - 1"
  shows "sint (m_input c) < sint (m_input p) \<and> sint (m_input c) \<le> g - 1 \<and>
         g - 1 - 32 \<le> sint (m_input c)"
proof -
  let ?l = "split_level keep_singletons codes p"
  from top have "sint (m_input p) \<le> 31"
    by linarith
  note b = split_level_bounds [OF this, of keep_singletons codes]
  have floor: "- 34 \<le> sint ?l \<and> (g - 32 \<le> sint ?l \<or> - 1 \<le> sint ?l)"
  proof (cases "0 \<le> sint (m_input p)")
    case True
    with b show ?thesis by simp
  next
    case False
    with b have "?l = m_input p" by simp
    with low top g0 False show ?thesis by simp
  qed
  then have "- (2 ^ 31) < sint ?l"
    by simp
  then have "sint (?l - 1) = sint ?l - 1"
    by (rule sint_pred)
  with b floor top show ?thesis
    unfolding c by linarith
qed

lemma generate_init_levels:
  assumes "0 < unat n_codes" and "unat bits \<le> 32"
  shows "levels_inv (generate_init context n_codes bits max_leaf_size tree0)"
proof -
  let ?st = "generate_init context n_codes bits max_leaf_size tree0"
  let ?seed = "\<lparr>m_node = 0, m_begin = 0, m_end = n_codes, m_input = bits - 1\<rparr>"
  let ?q0 = "resize_if_needed (m_task_queues context 0) n_codes"
  have q0: "m_task_queues (gen_context ?st) 0 = ?q0[0 := ?seed]"
    and iq: "in_queue ?st = 0"
    and cnt: "m_counters (gen_context ?st) = (resize_counters (m_counters context))[0 := 1, 1 := 0, 2 := 0]"
    and lvl: "gen_level ?st = bits - 1"
    by (simp_all add: generate_init_def Let_def)
  from assms(1) length_resize_if_needed [of n_codes "m_task_queues context 0"]
  have pos: "0 < length ?q0"
    by linarith
  have c0: "m_counters (gen_context ?st) ! 0 = 1"
    by (simp add: cnt length_resize_counters)
  from pos have pend: "pending ?st = [?seed]"
    by (simp add: pending_def iq c0 q0 take_Suc_conv_app_nth)
  from sint_top_level [OF assms(2)] show ?thesis
    by (simp add: levels_inv_def pend lvl)
qed

lemma generate_loop_body_levels:
  assumes inv: "gen_inv n tree0 st" and n: "n < 2 ^ 32" and lv: "levels_inv st"
    and cond: "generate_loop_cond st"
  shows "levels_inv (generate_loop_body max_leaf_size keep_singletons codes st) \<and>
         (\<forall>c\<in>set (pending (generate_loop_body max_leaf_size keep_singletons codes st)).
            \<exists>p\<in>set (pending st).
              sint (m_input c) < sint (m_input p) \<and>
              unat (m_begin p) \<le> unat (m_begin c) \<and> unat (m_end c) \<le> unat (m_end p))"
proof -
  let ?st' = "generate_loop_body max_leaf_size keep_singletons codes st"
  let ?g = "sint (gen_level st)"
  from cond have g0: "0 \<le> ?g"
    by (simp add: generate_loop_cond_def)
  from lv have g31: "?g \<le> 31"
    and tasks: "\<forall>t\<in>set (pending st). ?g - 32 \<le> sint (m_input t) \<and> sint (m_input t) \<le> ?g"
    by (simp_all add: levels_inv_def)
  have "gen_level ?st' = gen_level st - 1"
    by (simp add: generate_loop_body_def Let_def)
  moreover from g0 have "sint (gen_level st - 1) = ?g - 1"
    by (intro sint_pred) simp
  ultimately have g': "sint (gen_level ?st') = ?g - 1"
    by simp
  from generate_loop_body_inv [OF inv n, of max_leaf_size keep_singletons codes]
  have parents: "\<forall>c\<in>set (pending ?st'). \<exists>p\<in>set (pending st).
                   m_input c = split_level keep_singletons codes p - 1 \<and>
                   unat (m_begin p) \<le> unat (m_begin c) \<and> unat (m_end c) \<le> unat (m_end p)"
    by blast
  have each: "\<exists>p\<in>set (pending st).
                (sint (m_input c) < sint (m_input p) \<and>
                 unat (m_begin p) \<le> unat (m_begin c) \<and> unat (m_end c) \<le> unat (m_end p)) \<and>
                sint (m_input c) \<le> ?g - 1 \<and> ?g - 1 - 32 \<le> sint (m_input c)"
    if "c \<in> set (pending ?st')" for c
  proof -
    from that parents obtain p where p: "p \<in> set (pending st)"
      and c: "m_input c = split_level keep_singletons codes p - 1"
      and r: "unat (m_begin p) \<le> unat (m_begin c)" "unat (m_end c) \<le> unat (m_end p)"
      by blast
    from p tasks have "sint (m_input p) \<le> ?g" "?g - 32 \<le> sint (m_input p)"
      by simp_all
    from child_level [OF this(1) g31 this(2) g0 c] p r show ?thesis
      by blast
  qed
  have "?g - 1 - 32 \<le> sint (m_input c) \<and> sint (m_input c) \<le> ?g - 1"
    if "c \<in> set (pending ?st')" for c
    using each [OF that] by blast
  moreover from g0 g31 have "- 1 \<le> ?g - 1" "?g - 1 \<le> 31"
    by simp_all
  ultimately have "levels_inv ?st'"
    unfolding levels_inv_def g' by blast
  moreover have "\<forall>c\<in>set (pending ?st'). \<exists>p\<in>set (pending st).
              sint (m_input c) < sint (m_input p) \<and>
              unat (m_begin p) \<le> unat (m_begin c) \<and> unat (m_end c) \<le> unat (m_end p)"
    using each by blast
  ultimately show ?thesis
    by blast
qed

lemma generate_reaches_inv:
  assumes "generate_reaches max_leaf_size keep_singletons codes st0 st"
    and "gen_inv n tree0 st0" and "n < 2 ^ 32" and "levels_inv st0"
  shows "gen_inv n tree0 st \<and> levels_inv st"
  using assms
proof (induction rule: generate_reaches.induct)
  case start
  then show ?case
    by simp
next
  case (pass st)
  then have "gen_inv n tree0 st" and "levels_inv st"
    by simp_all
  with pass.hyps(2) pass.prems(2)
    generate_loop_body_inv [of n tree0 st max_leaf_size keep_singletons codes]
    generate_loop_body_levels [of n tree0 st max_leaf_size keep_singletons codes]
  show ?case
    by blast
qed

text \<open>
  Claim C7. Every task placed in a task queue during a build, the first task and every
  child task of the split stage, has a range that is not empty, \<open>begin < end\<close>, and the
  bit level of a child task is strictly smaller than the bit level of its parent task.
  The tasks placed in a queue are the tasks of the input queue in the states that
  \<open>generate\<close> reaches at the head of its loop; a task after a pass has a parent among the
  tasks before the pass, whose range holds its range. Levels are compared as the \<open>int32\<close>
  values that \<open>find_leading_bit_difference\<close> and \<open>generate\<close> take them for: the child of a
  task of level 0 has the level \<open>-1\<close>, stored as \<open>0xFFFFFFFF\<close>. The keys have at most 32
  bits and there is at least one key.
\<close>

theorem queued_tasks_live_levels_decrease:
  assumes "0 < unat n_codes" and "unat bits \<le> 32"
    and "generate_reaches max_leaf_size keep_singletons codes
           (generate_init context n_codes bits max_leaf_size tree0) st"
  shows "(\<forall>t\<in>set (pending st). m_begin t < m_end t) \<and>
         (generate_loop_cond st \<longrightarrow>
            (\<forall>c\<in>set (pending (generate_loop_body max_leaf_size keep_singletons codes st)).
               \<exists>p\<in>set (pending st).
                 sint (m_input c) < sint (m_input p) \<and>
                 m_begin p \<le> m_begin c \<and> m_end c \<le> m_end p))"
proof -
  let ?n = "unat n_codes"
  have n: "?n < 2 ^ 32"
    using unsigned_less [of n_codes] by simp
  from generate_reaches_inv [OF assms(3) generate_init_inv [OF assms(1)] n
         generate_init_levels [OF assms(1,2)]]
  have inv: "gen_inv ?n tree0 st" and lv: "levels_inv st"
    by simp_all
  from inv have "\<forall>t\<in>set (pending st). m_begin t < m_end t"
    by (simp add: gen_inv_def live_task_def word_less_nat_alt)
  moreover have "\<forall>c\<in>set (pending (generate_loop_body max_leaf_size keep_singletons codes st)).
               \<exists>p\<in>set (pending st).
                 sint (m_input c) < sint (m_input p) \<and>
                 m_begin p \<le> m_begin c \<and> m_end c \<le> m_end p"
    if "generate_loop_cond st"
    using generate_loop_body_levels [OF inv n lv that, of max_leaf_size keep_singletons codes]
    by (simp add: word_le_nat_alt)
  ultimately show ?thesis
    by blast
qed

theorem queued_tasks_live_levels_decrease_witness:
  "0 < unat (2 :: 32 word) \<and> unat (1 :: 32 word) \<le> 32 \<and>
   pending (generate_init
     \<lparr>m_task_queues = (\<lambda>_. [\<lparr>m_node = 0, m_begin = 0, m_end = 0, m_input = 0\<rparr>,
                              \<lparr>m_node = 0, m_begin = 0, m_end = 0, m_input = 0\<rparr>]),
      m_counters = [0, 0, 0, 0], m_nodes = 0, m_leaves = 0\<rparr> 2 1 1 [])
     = [\<lparr>m_node = 0, m_begin = 0, m_end = 2, m_input = 0\<rparr>] \<and>
   (0 :: 32 word) < 2 \<and>
   generate_loop_cond (generate_init
     \<lparr>m_task_queues = (\<lambda>_. [\<lparr>m_node = 0, m_begin = 0, m_end = 0, m_input = 0\<rparr>,
                              \<lparr>m_node = 0, m_begin = 0, m_end = 0, m_input = 0\<rparr>]),
      m_counters = [0, 0, 0, 0], m_nodes = 0, m_leaves = 0\<rparr> 2 1 1 []) \<and>
   pending (generate_loop_body 1 False [0, 1] (generate_init
     \<lparr>m_task_queues = (\<lambda>_. [\<lparr>m_node = 0, m_begin = 0, m_end = 0, m_input = 0\<rparr>,
                              \<lparr>m_node = 0, m_begin = 0, m_end = 0, m_input = 0\<rparr>]),
      m_counters = [0, 0, 0, 0], m_nodes = 0, m_leaves = 0\<rparr> 2 1 1 []))
     = [\<lparr>m_node = 1, m_begin = 0, m_end = 1, m_input = - 1\<rparr>,
        \<lparr>m_node = 2, m_begin = 1, m_end = 2, m_input = - 1\<rparr>] \<and>
   sint (- 1 :: 32 word) < sint (0 :: 32 word)"
proof -
  let ?ctx = "\<lparr>m_task_queues = (\<lambda>_. [\<lparr>m_node = 0, m_begin = 0, m_end = 0, m_input = 0\<rparr>,
                              \<lparr>m_node = 0, m_begin = 0, m_end = 0, m_input = 0\<rparr>]),
      m_counters = [0, 0, 0, 0], m_nodes = 0, m_leaves = 0\<rparr>"
  let ?st = "generate_init ?ctx 2 1 1 []"
  have hyps: "0 < unat (2 :: 32 word)" "unat (1 :: 32 word) \<le> 32"
    by simp_all
  note inst = queued_tasks_live_levels_decrease
                [of 2 1 1 False "[0, 1]" ?ctx "[]" ?st, OF hyps generate_reaches.start]
  have pend: "pending ?st = [\<lparr>m_node = 0, m_begin = 0, m_end = 2, m_input = 0\<rparr>]"
    by (simp add: pending_def generate_init_def resize_if_needed_def resize_counters_def Let_def)
  have cond: "generate_loop_cond ?st"
    by (simp add: generate_loop_cond_def generate_init_def resize_if_needed_def
          resize_counters_def Let_def)
  have pend': "pending (generate_loop_body 1 False [0, 1] ?st)
                 = [\<lparr>m_node = 1, m_begin = 0, m_end = 1, m_input = - 1\<rparr>,
                    \<lparr>m_node = 2, m_begin = 1, m_end = 2, m_input = - 1\<rparr>]"
    by (simp add: pending_def generate_init_def generate_loop_body_def resize_if_needed_def
          resize_counters_def split_def split_kernel_def split_kernel_thread_def split_plan_def
          split_level_def split_pivot_def find_pivot_def find_pivot_loop.simps mask_and_def
          alloc_def alloc1_def find_leading_bit_difference.simps Let_def upt_conv_Cons)
  from inst pend have "(0 :: 32 word) < 2"
    by simp
  moreover from inst cond pend pend' have "sint (- 1 :: 32 word) < sint (0 :: 32 word)"
    by simp
  ultimately show ?thesis
    using hyps pend cond pend' by blast
qed

end
